theory Spec2Isabelle
  imports Main "HOL-Library.Word"
begin

section \<open>Strings\<close>

text \<open>
  A JavaScript string is a finite sequence of 16-bit code units. The description of a
  task, the value of the input field, the storage key and the stored snapshot are all
  such strings.
\<close>

type_synonym code_unit = "16 word"
type_synonym jsstring = "code_unit list"

definition ascii :: "string \<Rightarrow> jsstring" where
  "ascii s = map of_char s"

section \<open>The data model\<close>

text \<open>
  \<^verbatim>\<open>type Task = { description: string; isCompleted: boolean }\<close>
\<close>

record Task =
  description :: jsstring
  isCompleted :: bool

section \<open>JSON\<close>

text \<open>
  \<^verbatim>\<open>JSON.stringify\<close> and \<^verbatim>\<open>JSON.parse\<close> are built-ins of the language. They are
  modelled on code units after ECMA-262 (QuoteJSONString, SerializeJSONObject,
  SerializeJSONArray, and the JSON grammar of ECMA-404 that \<^verbatim>\<open>JSON.parse\<close> accepts).
\<close>

subsection \<open>Serialisation\<close>

definition hex_digit :: "nat \<Rightarrow> code_unit" where
  "hex_digit n = (if n < 10 then of_nat (48 + n) else of_nat (87 + n))"

text \<open>UnicodeEscape: a backslash, the letter u and four lowercase hexadecimal digits.\<close>

definition unicode_escape :: "code_unit \<Rightarrow> jsstring" where
  "unicode_escape c =
     [0x5C, 0x75, hex_digit (unat c div 4096), hex_digit (unat c div 256 mod 16),
      hex_digit (unat c div 16 mod 16), hex_digit (unat c mod 16)]"

definition is_leading_surrogate :: "code_unit \<Rightarrow> bool" where
  "is_leading_surrogate c = (0xD800 \<le> c \<and> c \<le> 0xDBFF)"

definition is_trailing_surrogate :: "code_unit \<Rightarrow> bool" where
  "is_trailing_surrogate c = (0xDC00 \<le> c \<and> c \<le> 0xDFFF)"

text \<open>
  The body of QuoteJSONString. It walks the code points of the string: a leading
  surrogate directly followed by a trailing one is one code point and is copied; a
  surrogate on its own is escaped, as are the control characters.
\<close>

fun quote_units :: "jsstring \<Rightarrow> jsstring" where
  "quote_units [] = []"
| "quote_units (c # cs) =
     (if c = 0x08 then [0x5C, 0x62] @ quote_units cs
      else if c = 0x09 then [0x5C, 0x74] @ quote_units cs
      else if c = 0x0A then [0x5C, 0x6E] @ quote_units cs
      else if c = 0x0C then [0x5C, 0x66] @ quote_units cs
      else if c = 0x0D then [0x5C, 0x72] @ quote_units cs
      else if c = 0x22 then [0x5C, 0x22] @ quote_units cs
      else if c = 0x5C then [0x5C, 0x5C] @ quote_units cs
      else if c < 0x20 then unicode_escape c @ quote_units cs
      else if is_leading_surrogate c then
        (case cs of
           [] \<Rightarrow> unicode_escape c
         | d # ds \<Rightarrow>
             if is_trailing_surrogate d then c # d # quote_units ds
             else unicode_escape c @ quote_units cs)
      else if is_trailing_surrogate c then unicode_escape c @ quote_units cs
      else c # quote_units cs)"

definition JSON_quote :: "jsstring \<Rightarrow> jsstring" where
  "JSON_quote s = [0x22] @ quote_units s @ [0x22]"

text \<open>
  SerializeJSONObject on a Task: its two own properties in creation order, no gap.
\<close>

definition stringify_Task :: "Task \<Rightarrow> jsstring" where
  "stringify_Task t =
     [0x7B] @ JSON_quote (ascii ''description'') @ [0x3A] @ JSON_quote (description t)
     @ [0x2C] @ JSON_quote (ascii ''isCompleted'') @ [0x3A]
     @ (if isCompleted t then ascii ''true'' else ascii ''false'') @ [0x7D]"

fun join_comma :: "jsstring list \<Rightarrow> jsstring" where
  "join_comma [] = []"
| "join_comma [x] = x"
| "join_comma (x # y # ys) = x @ [0x2C] @ join_comma (y # ys)"

text \<open>\<^verbatim>\<open>JSON.stringify(tasks)\<close> for \<^verbatim>\<open>tasks: Task[]\<close> (SerializeJSONArray).\<close>

definition JSON_stringify :: "Task list \<Rightarrow> jsstring" where
  "JSON_stringify ts = [0x5B] @ join_comma (map stringify_Task ts) @ [0x5D]"

subsection \<open>Parsing\<close>

text \<open>
  The value \<^verbatim>\<open>JSON.parse\<close> returns. An object keeps its members as written, in
  order. A number keeps its literal: no claim depends on the value of a number.
\<close>

datatype json =
    JNull
  | JBool bool
  | JNumber jsstring
  | JString jsstring
  | JArray "json list"
  | JObject "(jsstring \<times> json) list"

datatype error = SyntaxError | TypeError | Fuel_exhausted

datatype 'a outcome = Ok 'a | Fail | More

definition is_ws :: "code_unit \<Rightarrow> bool" where
  "is_ws c = (c = 0x20 \<or> c = 0x09 \<or> c = 0x0A \<or> c = 0x0D)"

definition skip_ws :: "jsstring \<Rightarrow> jsstring" where
  "skip_ws s = dropWhile is_ws s"

definition is_digit :: "code_unit \<Rightarrow> bool" where
  "is_digit c = (0x30 \<le> c \<and> c \<le> 0x39)"

definition hex_value :: "code_unit \<Rightarrow> nat option" where
  "hex_value c =
     (if 0x30 \<le> c \<and> c \<le> 0x39 then Some (unat c - 48)
      else if 0x61 \<le> c \<and> c \<le> 0x66 then Some (unat c - 87)
      else if 0x41 \<le> c \<and> c \<le> 0x46 then Some (unat c - 55)
      else None)"

text \<open>The character a two-character escape stands for.\<close>

definition single_escape :: "code_unit \<Rightarrow> code_unit option" where
  "single_escape e =
     (if e = 0x22 then Some 0x22
      else if e = 0x5C then Some 0x5C
      else if e = 0x2F then Some 0x2F
      else if e = 0x62 then Some 0x08
      else if e = 0x66 then Some 0x0C
      else if e = 0x6E then Some 0x0A
      else if e = 0x72 then Some 0x0D
      else if e = 0x74 then Some 0x09
      else None)"

definition cons_char ::
  "code_unit \<Rightarrow> (jsstring \<times> jsstring) option \<Rightarrow> (jsstring \<times> jsstring) option" where
  "cons_char c r = (case r of None \<Rightarrow> None | Some (str, rest) \<Rightarrow> Some (c # str, rest))"

text \<open>
  The characters of a string literal after its opening quote, up to and including the
  closing quote: the string they denote, and the rest of the input.
\<close>

fun string_chars :: "jsstring \<Rightarrow> (jsstring \<times> jsstring) option" where
  "string_chars [] = None"
| "string_chars (c # cs) =
     (if c = 0x22 then Some ([], cs)
      else if c = 0x5C then
        (case cs of
           [] \<Rightarrow> None
         | e # es \<Rightarrow>
             if e = 0x75 then
               (case es of
                  h1 # h2 # h3 # h4 # r \<Rightarrow>
                    (case (hex_value h1, hex_value h2, hex_value h3, hex_value h4) of
                       (Some a, Some b, Some c', Some d) \<Rightarrow>
                         cons_char (of_nat (((a * 16 + b) * 16 + c') * 16 + d)) (string_chars r)
                     | _ \<Rightarrow> None)
                | _ \<Rightarrow> None)
             else
               (case single_escape e of
                  None \<Rightarrow> None
                | Some u \<Rightarrow> cons_char u (string_chars es)))
      else if c < 0x20 then None
      else cons_char c (string_chars cs))"

text \<open>Numbers: an optional minus, the integer part, an optional fraction and exponent.\<close>

definition int_part :: "jsstring \<Rightarrow> (jsstring \<times> jsstring) option" where
  "int_part s =
     (case s of
        [] \<Rightarrow> None
      | c # r \<Rightarrow>
          if c = 0x30 then Some ([c], r)
          else if 0x31 \<le> c \<and> c \<le> 0x39
            then Some (c # takeWhile is_digit r, dropWhile is_digit r)
          else None)"

definition frac_part :: "jsstring \<Rightarrow> (jsstring \<times> jsstring) option" where
  "frac_part s =
     (case s of
        [] \<Rightarrow> Some ([], s)
      | c # r \<Rightarrow>
          if c = 0x2E then
            (if takeWhile is_digit r = [] then None
             else Some (c # takeWhile is_digit r, dropWhile is_digit r))
          else Some ([], s))"

definition exp_sign :: "jsstring \<Rightarrow> jsstring \<times> jsstring" where
  "exp_sign s =
     (case s of
        [] \<Rightarrow> ([], s)
      | c # r \<Rightarrow> if c = 0x2B \<or> c = 0x2D then ([c], r) else ([], s))"

definition exp_part :: "jsstring \<Rightarrow> (jsstring \<times> jsstring) option" where
  "exp_part s =
     (case s of
        [] \<Rightarrow> Some ([], s)
      | c # r \<Rightarrow>
          if c = 0x65 \<or> c = 0x45 then
            (case exp_sign r of
               (sg, r') \<Rightarrow>
                 if takeWhile is_digit r' = [] then None
                 else Some (c # sg @ takeWhile is_digit r', dropWhile is_digit r'))
          else Some ([], s))"

definition parse_number :: "jsstring \<Rightarrow> (jsstring \<times> jsstring) option" where
  "parse_number s =
     (case (case s of [] \<Rightarrow> ([], s) | c # r \<Rightarrow> if c = 0x2D then ([c], r) else ([], s)) of
        (sg, s1) \<Rightarrow>
          (case int_part s1 of
             None \<Rightarrow> None
           | Some (ip, s2) \<Rightarrow>
               (case frac_part s2 of
                  None \<Rightarrow> None
                | Some (fp, s3) \<Rightarrow>
                    (case exp_part s3 of
                       None \<Rightarrow> None
                     | Some (ep, s4) \<Rightarrow> Some (sg @ ip @ fp @ ep, s4)))))"

definition literal :: "string \<Rightarrow> json \<Rightarrow> jsstring \<Rightarrow> (json \<times> jsstring) outcome" where
  "literal w v s =
     (if take (length w) s = ascii w then Ok (v, drop (length w) s) else Fail)"

text \<open>
  The recursive descent over values, array elements and object members. The first
  argument bounds the number of nested calls; \<open>More\<close> says that the bound was too small.
\<close>

fun parse_value :: "nat \<Rightarrow> jsstring \<Rightarrow> (json \<times> jsstring) outcome"
  and parse_elements :: "nat \<Rightarrow> jsstring \<Rightarrow> (json list \<times> jsstring) outcome"
  and parse_members :: "nat \<Rightarrow> jsstring \<Rightarrow> ((jsstring \<times> json) list \<times> jsstring) outcome"
where
  "parse_value 0 s = More"
| "parse_value (Suc n) s =
     (case skip_ws s of
        [] \<Rightarrow> Fail
      | c # cs \<Rightarrow>
          if c = 0x5B then
            (case skip_ws cs of
               [] \<Rightarrow> Fail
             | d # ds \<Rightarrow>
                 if d = 0x5D then Ok (JArray [], ds)
                 else
                   (case parse_elements n (d # ds) of
                      Ok (vs, r) \<Rightarrow> Ok (JArray vs, r)
                    | Fail \<Rightarrow> Fail
                    | More \<Rightarrow> More))
          else if c = 0x7B then
            (case skip_ws cs of
               [] \<Rightarrow> Fail
             | d # ds \<Rightarrow>
                 if d = 0x7D then Ok (JObject [], ds)
                 else
                   (case parse_members n (d # ds) of
                      Ok (ms, r) \<Rightarrow> Ok (JObject ms, r)
                    | Fail \<Rightarrow> Fail
                    | More \<Rightarrow> More))
          else if c = 0x22 then
            (case string_chars cs of
               None \<Rightarrow> Fail
             | Some (str, r) \<Rightarrow> Ok (JString str, r))
          else if c = 0x74 then literal ''true'' (JBool True) (c # cs)
          else if c = 0x66 then literal ''false'' (JBool False) (c # cs)
          else if c = 0x6E then literal ''null'' JNull (c # cs)
          else
            (case parse_number (c # cs) of
               None \<Rightarrow> Fail
             | Some (lit, r) \<Rightarrow> Ok (JNumber lit, r)))"
| "parse_elements 0 s = More"
| "parse_elements (Suc n) s =
     (case parse_value n s of
        Ok (v, r) \<Rightarrow>
          (case skip_ws r of
             [] \<Rightarrow> Fail
           | c # cs \<Rightarrow>
               if c = 0x2C then
                 (case parse_elements n cs of
                    Ok (vs, r') \<Rightarrow> Ok (v # vs, r')
                  | Fail \<Rightarrow> Fail
                  | More \<Rightarrow> More)
               else if c = 0x5D then Ok ([v], cs)
               else Fail)
      | Fail \<Rightarrow> Fail
      | More \<Rightarrow> More)"
| "parse_members 0 s = More"
| "parse_members (Suc n) s =
     (case skip_ws s of
        [] \<Rightarrow> Fail
      | q # ks \<Rightarrow>
          if q = 0x22 then
            (case string_chars ks of
               None \<Rightarrow> Fail
             | Some (k, r) \<Rightarrow>
                 (case skip_ws r of
                    [] \<Rightarrow> Fail
                  | c # cs \<Rightarrow>
                      if c = 0x3A then
                        (case parse_value n cs of
                           Ok (v, r') \<Rightarrow>
                             (case skip_ws r' of
                                [] \<Rightarrow> Fail
                              | e # es \<Rightarrow>
                                  if e = 0x2C then
                                    (case parse_members n es of
                                       Ok (ms, r'') \<Rightarrow> Ok ((k, v) # ms, r'')
                                     | Fail \<Rightarrow> Fail
                                     | More \<Rightarrow> More)
                                  else if e = 0x7D then Ok ([(k, v)], es)
                                  else Fail)
                         | Fail \<Rightarrow> Fail
                         | More \<Rightarrow> More)
                      else Fail))
          else Fail)"

text \<open>
  \<^verbatim>\<open>JSON.parse(text)\<close>: one value between optional white space, or a SyntaxError.
  The bound given to the descent is always enough (lemma \<open>JSON_parse_fuel\<close> below).
\<close>

definition JSON_parse :: "jsstring \<Rightarrow> error + json" where
  "JSON_parse s =
     (case parse_value (2 * length s + 1) s of
        Ok (v, r) \<Rightarrow> if skip_ws r = [] then Inr v else Inl SyntaxError
      | Fail \<Rightarrow> Inl SyntaxError
      | More \<Rightarrow> Inl Fuel_exhausted)"

text \<open>
  The JSON value of a task and of a task array, and the way back: the reading of a
  parsed value at the declared type \<^verbatim>\<open>Task[]\<close>. The source casts the parsed value
  to that type without a check; the model follows the declared type and reads only
  values of exactly that shape.
\<close>

definition Task_json :: "Task \<Rightarrow> json" where
  "Task_json t =
     JObject [(ascii ''description'', JString (description t)),
              (ascii ''isCompleted'', JBool (isCompleted t))]"

definition Tasks_json :: "Task list \<Rightarrow> json" where
  "Tasks_json ts = JArray (map Task_json ts)"

definition json_Task :: "json \<Rightarrow> Task option" where
  "json_Task v =
     (case v of
        JObject [(k1, JString d), (k2, JBool b)] \<Rightarrow>
          if k1 = ascii ''description'' \<and> k2 = ascii ''isCompleted''
          then Some \<lparr>description = d, isCompleted = b\<rparr>
          else None
      | _ \<Rightarrow> None)"

definition Task_array :: "json \<Rightarrow> Task list option" where
  "Task_array v = (case v of JArray vs \<Rightarrow> those (map json_Task vs) | _ \<Rightarrow> None)"

section \<open>The page: task objects, the task array, the DOM and the storage\<close>

text \<open>
  Task objects live in a heap and are named by their address (an index into the heap;
  there are no dangling references in the language, and in a well-formed state every
  reference is in range), because the listeners
  that \<^verbatim>\<open>renderTask\<close> installs keep a reference to the task they were created for,
  and the checkbox listener updates that object in place. The global \<^verbatim>\<open>tasks\<close> is an
  array of such references.

  A list item as \<^verbatim>\<open>renderTask\<close> builds it: the text of its span, the state of its
  checkbox, and the task that both of its listeners refer to.
\<close>

record li =
  span_text :: jsstring
  checkbox_checked :: bool
  task_ref :: nat

text \<open>What the page does to the outside, in order.\<close>

datatype effect =
    Alert jsstring
  | SetItem jsstring jsstring
  | ConsoleLog "Task list"

text \<open>
  \<open>taskForm\<close>, \<open>formInput\<close> and \<open>taskListElement\<close> are the three results of
  \<^verbatim>\<open>document.querySelector\<close>: each may be null. The input element is given by its
  value, the list by its children. Only items attached to the list are kept: an item
  that was never attached, or that was removed, cannot receive an event from the user.
\<close>

record state =
  heap :: "Task list"
  tasks :: "nat list"
  taskForm :: bool
  formInput :: "jsstring option"
  taskListElement :: "li list option"
  localStorage :: "jsstring \<Rightarrow> jsstring option"
  effects :: "effect list"

text \<open>The in-memory task sequence: the objects the array refers to, in order.\<close>

definition task_values :: "state \<Rightarrow> Task list" where
  "task_values s = map (\<lambda>a. heap s ! a) (tasks s)"

section \<open>The functions of tasks.ts\<close>

text \<open>
  \<^verbatim>\<open>loadTasks\<close>: a missing item and the empty string are both falsy and give the empty
  array; any other stored string goes to \<^verbatim>\<open>JSON.parse\<close>, whose exception is not caught.
\<close>

definition loadTasks :: "(jsstring \<Rightarrow> jsstring option) \<Rightarrow> error + json" where
  "loadTasks store =
     (case store (ascii ''tasks'') of
        None \<Rightarrow> Inr (JArray [])
      | Some storedTasks \<Rightarrow>
          if storedTasks \<noteq> [] then JSON_parse storedTasks else Inr (JArray []))"

definition updateStorage :: "state \<Rightarrow> state" where
  "updateStorage s =
     s\<lparr>localStorage := (localStorage s)(ascii ''tasks'' \<mapsto> JSON_stringify (task_values s)),
       effects := effects s @ [SetItem (ascii ''tasks'') (JSON_stringify (task_values s))]\<rparr>"

definition addTask :: "nat \<Rightarrow> state \<Rightarrow> state" where
  "addTask task s =
     (let s1 = s\<lparr>tasks := tasks s @ [task]\<rparr>
      in s1\<lparr>effects := effects s1 @ [ConsoleLog (task_values s1)]\<rparr>)"

text \<open>
  \<^verbatim>\<open>renderTask\<close>: the item is built in any case and attached only when the list
  exists (\<^verbatim>\<open>taskListElement?.appendChild\<close>).
\<close>

definition renderTask :: "nat \<Rightarrow> state \<Rightarrow> state" where
  "renderTask task s =
     (let taskElement =
            \<lparr>span_text = description (heap s ! task),
             checkbox_checked = isCompleted (heap s ! task),
             task_ref = task\<rparr>
      in case taskListElement s of
           None \<Rightarrow> s
         | Some children \<Rightarrow> s\<lparr>taskListElement := Some (children @ [taskElement])\<rparr>)"

text \<open>The listener of the checkbox of the item rendered for \<open>task\<close>.\<close>

definition change_handler :: "nat \<Rightarrow> state \<Rightarrow> state" where
  "change_handler task s =
     updateStorage
       (s\<lparr>heap := (heap s)[task := (heap s ! task)\<lparr>isCompleted := \<not> isCompleted (heap s ! task)\<rparr>]\<rparr>)"

text \<open>\<^verbatim>\<open>Array.prototype.findIndex\<close>: the first index that satisfies, or -1.\<close>

fun findIndex :: "('a \<Rightarrow> bool) \<Rightarrow> 'a list \<Rightarrow> int" where
  "findIndex p [] = - 1"
| "findIndex p (x # xs) =
     (if p x then 0 else (let i = findIndex p xs in if i = - 1 then - 1 else i + 1))"

text \<open>\<^verbatim>\<open>xs.splice(i, 1)\<close>\<close>

definition splice1 :: "nat \<Rightarrow> 'a list \<Rightarrow> 'a list" where
  "splice1 i xs = take i xs @ drop (Suc i) xs"

text \<open>
  Unguarded member accesses on an element that may be null. They throw a TypeError
  on null; the source reaches them only behind a test.
\<close>

definition set_innerHTML_empty :: "state \<Rightarrow> error + state" where
  "set_innerHTML_empty s =
     (case taskListElement s of
        None \<Rightarrow> Inl TypeError
      | Some children \<Rightarrow> Inr (s\<lparr>taskListElement := Some []\<rparr>))"

definition set_value :: "jsstring \<Rightarrow> state \<Rightarrow> error + state" where
  "set_value v s =
     (case formInput s of
        None \<Rightarrow> Inl TypeError
      | Some old \<Rightarrow> Inr (s\<lparr>formInput := Some v\<rparr>))"

definition deleteTask :: "nat \<Rightarrow> state \<Rightarrow> error + state" where
  "deleteTask taskToDelete s =
     (let taskIndex =
            findIndex
              (\<lambda>task. description task = description (heap s ! taskToDelete) \<and>
                       isCompleted task = isCompleted (heap s ! taskToDelete))
              (task_values s)
      in if taskIndex \<noteq> - 1 then
           (let s1 = s\<lparr>tasks := splice1 (nat taskIndex) (tasks s)\<rparr>;
                s2 = updateStorage s1
            in if taskListElement s2 \<noteq> None then
                 (case set_innerHTML_empty s2 of
                    Inl e \<Rightarrow> Inl e
                  | Inr s3 \<Rightarrow> Inr (fold renderTask (tasks s3) s3))
               else Inr s2)
         else Inr s)"

definition alert :: "jsstring \<Rightarrow> state \<Rightarrow> state" where
  "alert msg s = s\<lparr>effects := effects s @ [Alert msg]\<rparr>"

text \<open>
  The submit listener. \<^verbatim>\<open>formInput?.value\<close> is undefined when the input is null;
  undefined and the empty string are the falsy values of \<^verbatim>\<open>taskDescription\<close>. The
  object literal allocates a new task. \<^verbatim>\<open>event.preventDefault()\<close> only keeps the
  browser from leaving the page.
\<close>

definition submit_handler :: "state \<Rightarrow> error + state" where
  "submit_handler s =
     (case formInput s of
        None \<Rightarrow> Inr (alert (ascii ''Please enter a task description'') s)
      | Some taskDescription \<Rightarrow>
          if taskDescription \<noteq> [] then
            (let task = length (heap s);
                 s0 = s\<lparr>heap := heap s @ [\<lparr>description = taskDescription, isCompleted = False\<rparr>]\<rparr>;
                 s1 = addTask task s0;
                 s2 = renderTask task s1;
                 s3 = updateStorage s2
             in set_value [] s3)
          else Inr (alert (ascii ''Please enter a task description'') s))"

text \<open>
  The top level of the script: the three queries, \<^verbatim>\<open>loadTasks()\<close>, the rendering of
  the loaded tasks. The submit listener is installed when the form exists. The result
  is undefined (\<open>None\<close>) for a stored value outside the declared type.
\<close>

definition startup ::
  "bool \<Rightarrow> jsstring option \<Rightarrow> bool \<Rightarrow> (jsstring \<Rightarrow> jsstring option) \<Rightarrow> (error + state) option"
where
  "startup form input list store =
     (case loadTasks store of
        Inl e \<Rightarrow> Some (Inl e)
      | Inr v \<Rightarrow>
          (case Task_array v of
             None \<Rightarrow> None
           | Some ts \<Rightarrow>
               (let s = \<lparr>heap = ts, tasks = [0..<length ts], taskForm = form,
                         formInput = input,
                         taskListElement = (if list then Some [] else None),
                         localStorage = store, effects = []\<rparr>
                in Some (Inr (fold renderTask (tasks s) s)))))"

section \<open>Events\<close>

text \<open>
  What the user can do: type into the input, submit the form, click the checkbox or
  the delete button of the \<open>i\<close>-th item of the list. An event on an element that does
  not exist does not happen. The browser flips the checkbox before its listener runs.
\<close>

datatype event = Type jsstring | Submit | Change nat | Click nat

definition fire :: "event \<Rightarrow> state \<Rightarrow> error + state" where
  "fire ev s =
     (case ev of
        Type v \<Rightarrow>
          (case formInput s of
             None \<Rightarrow> Inr s
           | Some old \<Rightarrow> Inr (s\<lparr>formInput := Some v\<rparr>))
      | Submit \<Rightarrow> if taskForm s then submit_handler s else Inr s
      | Change i \<Rightarrow>
          (case taskListElement s of
             None \<Rightarrow> Inr s
           | Some children \<Rightarrow>
               if i < length children then
                 Inr (change_handler (task_ref (children ! i))
                       (s\<lparr>taskListElement :=
                            Some (children[i := (children ! i)
                              \<lparr>checkbox_checked := \<not> checkbox_checked (children ! i)\<rparr>])\<rparr>))
               else Inr s)
      | Click i \<Rightarrow>
          (case taskListElement s of
             None \<Rightarrow> Inr s
           | Some children \<Rightarrow>
               if i < length children then deleteTask (task_ref (children ! i)) s
               else Inr s))"

fun run :: "event list \<Rightarrow> state \<Rightarrow> error + state" where
  "run [] s = Inr s"
| "run (ev # evs) s = (case fire ev s of Inl e \<Rightarrow> Inl e | Inr s' \<Rightarrow> run evs s')"

text \<open>
  The events that are an add, a toggle or a delete: a submit with a description, and
  a click on the checkbox or the delete button of an item of the list.
\<close>

definition operation :: "event \<Rightarrow> state \<Rightarrow> bool" where
  "operation ev s =
     (case ev of
        Type v \<Rightarrow> False
      | Submit \<Rightarrow> taskForm s \<and> (case formInput s of None \<Rightarrow> False | Some d \<Rightarrow> d \<noteq> [])
      | Change i \<Rightarrow> (case taskListElement s of None \<Rightarrow> False | Some children \<Rightarrow> i < length children)
      | Click i \<Rightarrow> (case taskListElement s of None \<Rightarrow> False | Some children \<Rightarrow> i < length children))"

text \<open>
  Well-formed states: every reference of the array points into the heap, no object is
  in the array twice, and the items of the list are those of the array, in order.
\<close>

definition well_formed :: "state \<Rightarrow> bool" where
  "well_formed s =
     ((\<forall>a \<in> set (tasks s). a < length (heap s)) \<and> distinct (tasks s) \<and>
      (case taskListElement s of
         None \<Rightarrow> True
       | Some children \<Rightarrow> map task_ref children = tasks s))"

section \<open>Example pages\<close>

definition taskA :: Task where
  "taskA = \<lparr>description = ascii ''A'', isCompleted = True\<rparr>"

definition snapshotA :: jsstring where
  \<open>snapshotA = ascii ''[{"description":"A","isCompleted":true}]''\<close>

definition empty_page :: state where
  "empty_page =
     \<lparr>heap = [], tasks = [], taskForm = True, formInput = Some [],
      taskListElement = Some [], localStorage = Map.empty, effects = []\<rparr>"

text \<open>The page after start-up on the stored snapshot \<open>snapshotA\<close>.\<close>

definition pageA :: state where
  "pageA =
     \<lparr>heap = [taskA], tasks = [0], taskForm = True, formInput = Some [],
      taskListElement =
        Some [\<lparr>span_text = ascii ''A'', checkbox_checked = True, task_ref = 0\<rparr>],
      localStorage = [ascii ''tasks'' \<mapsto> snapshotA], effects = []\<rparr>"

text \<open>A page whose input holds one space.\<close>

definition blank_page :: state where
  "blank_page = empty_page\<lparr>formInput := Some [0x20]\<rparr>"

text \<open>
  Three tasks, the first and the last with the same description and flag, and a
  fourth object that is not in the array.
\<close>

definition twins_page :: state where
  "twins_page =
     \<lparr>heap = [\<lparr>description = ascii ''A'', isCompleted = False\<rparr>,
              \<lparr>description = ascii ''B'', isCompleted = False\<rparr>,
              \<lparr>description = ascii ''A'', isCompleted = False\<rparr>,
              \<lparr>description = ascii ''C'', isCompleted = True\<rparr>],
      tasks = [0, 1, 2], taskForm = True, formInput = Some (ascii ''A''),
      taskListElement =
        Some [\<lparr>span_text = ascii ''A'', checkbox_checked = False, task_ref = 0\<rparr>,
              \<lparr>span_text = ascii ''B'', checkbox_checked = False, task_ref = 1\<rparr>,
              \<lparr>span_text = ascii ''A'', checkbox_checked = False, task_ref = 2\<rparr>],
      localStorage = [ascii ''tasks'' \<mapsto> ascii ''[ ]''], effects = []\<rparr>"

text \<open>A page without form, input and list.\<close>

definition bare_page :: state where
  "bare_page =
     \<lparr>heap = [taskA], tasks = [0], taskForm = False, formInput = None,
      taskListElement = None, localStorage = Map.empty, effects = []\<rparr>"

text \<open>\<open>pageA\<close> after typing B and submitting.\<close>

definition pageAB :: state where
  "pageAB =
     \<lparr>heap = [taskA, \<lparr>description = ascii ''B'', isCompleted = False\<rparr>],
      tasks = [0, 1], taskForm = True, formInput = Some [],
      taskListElement =
        Some [\<lparr>span_text = ascii ''A'', checkbox_checked = True, task_ref = 0\<rparr>,
              \<lparr>span_text = ascii ''B'', checkbox_checked = False, task_ref = 1\<rparr>],
      localStorage =
        [ascii ''tasks'' \<mapsto>
           JSON_stringify [taskA, \<lparr>description = ascii ''B'', isCompleted = False\<rparr>]],
      effects =
        [ConsoleLog [taskA, \<lparr>description = ascii ''B'', isCompleted = False\<rparr>],
         SetItem (ascii ''tasks'')
           (JSON_stringify [taskA, \<lparr>description = ascii ''B'', isCompleted = False\<rparr>])]\<rparr>"


section \<open>Properties of the JSON functions\<close>

subsection \<open>Strings survive quoting\<close>

lemma unat_word_of_nat_small: "m < 65536 \<Longrightarrow> unat (word_of_nat m :: code_unit) = m"
  by (simp add: unat_of_nat)

lemma unat_hex_digit: "n < 16 \<Longrightarrow> unat (hex_digit n) = (if n < 10 then 48 + n else 87 + n)"
  unfolding hex_digit_def using unat_word_of_nat_small [of "48 + n"] unat_word_of_nat_small [of "87 + n"]
  by (simp del: of_nat_add)

lemma hex_value_hex_digit: "n < 16 \<Longrightarrow> hex_value (hex_digit n) = Some n"
  using unat_hex_digit [of n]
  by (auto simp: hex_value_def word_le_nat_alt)

lemma nibbles_nat:
  "((x div 4096 * 16 + x div 256 mod 16) * 16 + x div 16 mod 16) * 16 + x mod 16 = (x::nat)"
proof -
  have a: "x div 256 = x div 16 div 16"
    by (simp add: div_mult2_eq [symmetric])
  have b: "x div 4096 = x div 16 div 16 div 16"
    by (simp add: div_mult2_eq [symmetric])
  show ?thesis
    unfolding a b by (simp only: div_mult_mod_eq)
qed

lemma unat_code_unit_less: "unat (c :: code_unit) < 65536"
  using unsigned_less [of c] by simp

lemma nibbles_code_unit:
  "(of_nat (((unat c div 4096 * 16 + unat c div 256 mod 16) * 16 + unat c div 16 mod 16) * 16
      + unat c mod 16) :: code_unit) = c"
  by (simp only: nibbles_nat) simp

lemma string_chars_u:
  "hex_value h1 = Some a \<Longrightarrow> hex_value h2 = Some b \<Longrightarrow>
   hex_value h3 = Some c' \<Longrightarrow> hex_value h4 = Some d \<Longrightarrow>
   string_chars (0x5C # 0x75 # h1 # h2 # h3 # h4 # r) =
     cons_char (of_nat (((a * 16 + b) * 16 + c') * 16 + d)) (string_chars r)"
  by (simp del: of_nat_add of_nat_mult)

lemma string_chars_unicode_escape:
  "string_chars (unicode_escape c @ r) = cons_char c (string_chars r)"
proof -
  have "unat c div 4096 < 16"
    using unat_code_unit_less [of c] by simp
  then have "string_chars (unicode_escape c @ r) =
      cons_char (of_nat (((unat c div 4096 * 16 + unat c div 256 mod 16) * 16
        + unat c div 16 mod 16) * 16 + unat c mod 16)) (string_chars r)"
    unfolding unicode_escape_def append_Cons append_Nil
    by (intro string_chars_u hex_value_hex_digit) simp_all
  then show ?thesis
    by (simp only: nibbles_code_unit)
qed

lemma string_chars_quote: "string_chars (0x22 # r) = Some ([], r)"
  by simp

lemma string_chars_escape:
  "single_escape e = Some u \<Longrightarrow> e \<noteq> 0x75 \<Longrightarrow>
   string_chars (0x5C # e # r) = cons_char u (string_chars r)"
  by simp

lemma string_chars_plain:
  "c \<noteq> 0x22 \<Longrightarrow> c \<noteq> 0x5C \<Longrightarrow> \<not> c < 0x20 \<Longrightarrow>
   string_chars (c # r) = cons_char c (string_chars r)"
  by simp

lemma surrogate_plain:
  "is_leading_surrogate c \<or> is_trailing_surrogate c \<Longrightarrow>
   c \<noteq> 0x22 \<and> c \<noteq> 0x5C \<and> \<not> c < 0x20 \<and>
   c \<noteq> 0x08 \<and> c \<noteq> 0x09 \<and> c \<noteq> 0x0A \<and> c \<noteq> 0x0C \<and> c \<noteq> 0x0D"
  by (auto simp: is_leading_surrogate_def is_trailing_surrogate_def word_le_nat_alt word_less_nat_alt)

lemma single_escape_values:
  "single_escape 0x62 = Some 0x08" "single_escape 0x74 = Some 0x09"
  "single_escape 0x6E = Some 0x0A" "single_escape 0x66 = Some 0x0C"
  "single_escape 0x72 = Some 0x0D" "single_escape 0x22 = Some 0x22"
  "single_escape 0x5C = Some 0x5C"
  by (simp_all add: single_escape_def)

lemma string_chars_two:
  "string_chars (0x5C # 0x62 # r) = cons_char 0x08 (string_chars r)"
  "string_chars (0x5C # 0x74 # r) = cons_char 0x09 (string_chars r)"
  "string_chars (0x5C # 0x6E # r) = cons_char 0x0A (string_chars r)"
  "string_chars (0x5C # 0x66 # r) = cons_char 0x0C (string_chars r)"
  "string_chars (0x5C # 0x72 # r) = cons_char 0x0D (string_chars r)"
  "string_chars (0x5C # 0x22 # r) = cons_char 0x22 (string_chars r)"
  "string_chars (0x5C # 0x5C # r) = cons_char 0x5C (string_chars r)"
  by (simp_all add: single_escape_def)

lemma cons_char_Some: "cons_char c (Some (s, r)) = Some (c # s, r)"
  by (simp add: cons_char_def)

lemmas string_chars_facts =
  string_chars_quote string_chars_two string_chars_plain string_chars_unicode_escape
  cons_char_Some

lemma string_chars_quote_units:
  "string_chars (quote_units s @ 0x22 # rest) = Some (s, rest)"
proof (induction s rule: quote_units.induct)
  case 1
  show ?case by simp
next
  case (2 c cs)
  show ?case
  proof (cases "is_leading_surrogate c")
    case True
    note lead = surrogate_plain [of c] True
    show ?thesis
    proof (cases cs)
      case Nil
      with lead show ?thesis
        by (simp add: string_chars_facts del: string_chars.simps)
    next
      case (Cons d ds)
      show ?thesis
      proof (cases "is_trailing_surrogate d")
        case t: True
        from 2(9) [OF _ _ _ _ _ _ _ _ True Cons t] lead
        have "string_chars (quote_units ds @ 0x22 # rest) = Some (ds, rest)"
          by simp
        with lead t Cons surrogate_plain [of d] show ?thesis
          by (simp add: string_chars_facts del: string_chars.simps)
      next
        case f: False
        from 2(10) [OF _ _ _ _ _ _ _ _ True Cons f] lead
        have "string_chars (quote_units cs @ 0x22 # rest) = Some (cs, rest)"
          by simp
        with lead f Cons show ?thesis
          by (simp add: string_chars_facts del: string_chars.simps)
      qed
    qed
  next
    case False
    with 2(1-8,11,12)
    have IH: "string_chars (quote_units cs @ 0x22 # rest) = Some (cs, rest)"
      by blast
    show ?thesis
    proof (cases "is_trailing_surrogate c")
      case True
      with False IH surrogate_plain [of c] show ?thesis
        by (simp add: string_chars_facts del: string_chars.simps)
    next
      case nt: False
      with False IH show ?thesis
        by (simp add: string_chars_facts del: string_chars.simps)
    qed
  qed
qed

subsection \<open>The bound of the descent is enough\<close>

lemma skip_ws_Cons_length: "skip_ws s = c # cs \<Longrightarrow> length cs < length s"
proof -
  assume a: "skip_ws s = c # cs"
  have "length (skip_ws s) \<le> length s"
    unfolding skip_ws_def by (rule length_dropWhile_le)
  with a show ?thesis by simp
qed

lemma cons_char_rest: "cons_char c x = Some (str, r) \<Longrightarrow> \<exists>str'. x = Some (str', r)"
  by (auto simp: cons_char_def split: option.splits)

lemma string_chars_length: "string_chars s = Some (str, r) \<Longrightarrow> length r < length s"
proof (induction "length s" arbitrary: s str rule: less_induct)
  case less
  note IH = less.hyps
  from less.prems obtain c cs where s: "s = c # cs"
    by (cases s) auto
  show ?case
  proof (cases "c = 0x22")
    case True
    with less.prems s show ?thesis by simp
  next
    case q: False
    show ?thesis
    proof (cases "c = 0x5C")
      case False
      with q less.prems s obtain str' where "string_chars cs = Some (str', r)"
        by (auto split: if_splits dest: cons_char_rest)
      from IH [OF _ this] s show ?thesis by simp
    next
      case True
      with less.prems s obtain e es where cs: "cs = e # es"
        by (cases cs) auto
      show ?thesis
      proof (cases "e = 0x75")
        case False
        with True less.prems s cs obtain str' where "string_chars es = Some (str', r)"
          by (auto split: option.splits dest: cons_char_rest)
        from IH [OF _ this] s cs show ?thesis by simp
      next
        case u: True
        with True less.prems s cs obtain h1 h2 h3 h4 t where es: "es = h1 # h2 # h3 # h4 # t"
          by (auto split: list.splits)
        with u True less.prems s cs obtain str' where "string_chars t = Some (str', r)"
          by (auto simp del: of_nat_add of_nat_mult split: option.splits dest: cons_char_rest)
        from IH [OF _ this] s cs es show ?thesis by simp
      qed
    qed
  qed
qed


lemma int_part_length: "int_part s = Some (lit, r) \<Longrightarrow> length r < length s"
  by (cases s) (auto simp: int_part_def less_Suc_eq_le length_dropWhile_le split: if_splits)

lemma frac_part_length: "frac_part s = Some (lit, r) \<Longrightarrow> length r \<le> length s"
  by (cases s) (auto simp: frac_part_def le_SucI length_dropWhile_le split: if_splits)

lemma exp_sign_length: "exp_sign s = (sg, r) \<Longrightarrow> length r \<le> length s"
  by (cases s) (auto simp: exp_sign_def split: if_splits)

lemma exp_part_length: "exp_part s = Some (lit, r) \<Longrightarrow> length r \<le> length s"
proof (cases s)
  case Nil
  assume "exp_part s = Some (lit, r)"
  with Nil show ?thesis by (simp add: exp_part_def)
next
  case (Cons c t)
  assume a: "exp_part s = Some (lit, r)"
  obtain sg t' where e: "exp_sign t = (sg, t')"
    by (cases "exp_sign t")
  have "length (dropWhile is_digit t') \<le> length t'"
    by (rule length_dropWhile_le)
  with exp_sign_length [OF e] have "length (dropWhile is_digit t') \<le> length s"
    using Cons by simp
  with a Cons e show ?thesis
    by (auto simp: exp_part_def split: if_splits)
qed

lemma parse_number_length: "parse_number s = Some (lit, r) \<Longrightarrow> length r < length s"
proof -
  assume a: "parse_number s = Some (lit, r)"
  define s1 where "s1 = snd (case s of [] \<Rightarrow> ([], s) | c # t \<Rightarrow> if c = 0x2D then ([c], t) else ([], s))"
  have s1: "length s1 \<le> length s"
    by (cases s) (simp_all add: s1_def)
  from a obtain ip s2 fp s3 ep where
    "int_part s1 = Some (ip, s2)" "frac_part s2 = Some (fp, s3)" "exp_part s3 = Some (ep, r)"
    by (auto simp: parse_number_def s1_def split: prod.splits option.splits list.splits if_splits)
  from int_part_length [OF this(1)] frac_part_length [OF this(2)] exp_part_length [OF this(3)] s1
  show ?thesis by simp
qed

lemma literal_length:
  "literal w v s = Ok (v', r) \<Longrightarrow> w \<noteq> [] \<Longrightarrow> length r < length s"
  by (cases s) (auto simp: literal_def ascii_def split: if_splits)

lemma parse_consumes_aux:
  "(\<forall>s v r. parse_value n s = Ok (v, r) \<longrightarrow> length r < length s) \<and>
   (\<forall>s vs r. parse_elements n s = Ok (vs, r) \<longrightarrow> length r < length s) \<and>
   (\<forall>s ms r. parse_members n s = Ok (ms, r) \<longrightarrow> length r < length s)"
proof (induction n)
  case 0
  show ?case by simp
next
  case (Suc n)
  have V: "length r < length s" if "parse_value (Suc n) s = Ok (v, r)" for s v r
  proof -
    from that obtain c cs where sk: "skip_ws s = c # cs"
      by (cases "skip_ws s") auto
    note l = skip_ws_Cons_length [OF sk]
    from that sk consider
        (arr0) d where "skip_ws cs = d # r"
      | (arr) d ds vs where "skip_ws cs = d # ds" "parse_elements n (d # ds) = Ok (vs, r)"
      | (obj) d ds ms where "skip_ws cs = d # ds" "parse_members n (d # ds) = Ok (ms, r)"
      | (str) str where "string_chars cs = Some (str, r)"
      | (lit) w v' where "literal w v' (c # cs) = Ok (v, r)" "w \<noteq> []"
      | (num) lit where "parse_number (c # cs) = Some (lit, r)"
      by (auto split: list.splits if_splits outcome.splits option.splits)
    then show ?thesis
    proof cases
      case arr0
      from skip_ws_Cons_length [OF this] l show ?thesis by simp
    next
      case arr
      from Suc arr(2) have "length r < length (d # ds)" by blast
      with skip_ws_Cons_length [OF arr(1)] l show ?thesis by simp
    next
      case obj
      from Suc obj(2) have "length r < length (d # ds)" by blast
      with skip_ws_Cons_length [OF obj(1)] l show ?thesis by simp
    next
      case str
      from string_chars_length [OF this] l show ?thesis by simp
    next
      case lit
      from literal_length [OF this] l show ?thesis by simp
    next
      case num
      from parse_number_length [OF this] l show ?thesis by simp
    qed
  qed
  have E: "length r < length s" if "parse_elements (Suc n) s = Ok (vs, r)" for s vs r
  proof -
    from that obtain v r1 where v: "parse_value n s = Ok (v, r1)"
      by (auto split: outcome.splits)
    with Suc have l1: "length r1 < length s" by blast
    from that v obtain c cs where sk: "skip_ws r1 = c # cs"
      by (cases "skip_ws r1") auto
    note l2 = skip_ws_Cons_length [OF sk]
    from that v sk consider
        (more) vs' where "parse_elements n cs = Ok (vs', r)"
      | (last) "r = cs"
      by (auto split: if_splits outcome.splits)
    then show ?thesis
    proof cases
      case more
      with Suc have "length r < length cs" by blast
      with l1 l2 show ?thesis by simp
    next
      case last
      with l1 l2 show ?thesis by simp
    qed
  qed
  have M: "length r < length s" if "parse_members (Suc n) s = Ok (ms, r)" for s ms r
  proof -
    from that obtain q ks where sk: "skip_ws s = q # ks"
      by (cases "skip_ws s") auto
    note l0 = skip_ws_Cons_length [OF sk]
    from that sk obtain k r0 where k: "string_chars ks = Some (k, r0)"
      by (auto split: if_splits option.splits)
    note l1 = string_chars_length [OF k]
    from that sk k obtain c cs where sk1: "skip_ws r0 = c # cs"
      by (cases "skip_ws r0") (auto split: if_splits)
    note l2 = skip_ws_Cons_length [OF sk1]
    from that sk k sk1 obtain v r1 where v: "parse_value n cs = Ok (v, r1)"
      by (auto split: if_splits outcome.splits)
    with Suc have l3: "length r1 < length cs" by blast
    from that sk k sk1 v obtain e es where sk2: "skip_ws r1 = e # es"
      by (cases "skip_ws r1") (auto split: if_splits)
    note l4 = skip_ws_Cons_length [OF sk2]
    from that sk k sk1 v sk2 consider
        (more) ms' where "parse_members n es = Ok (ms', r)"
      | (last) "r = es"
      by (auto split: if_splits outcome.splits)
    then show ?thesis
    proof cases
      case more
      with Suc have "length r < length es" by blast
      with l0 l1 l2 l3 l4 show ?thesis by simp
    next
      case last
      with l0 l1 l2 l3 l4 show ?thesis by simp
    qed
  qed
  from V E M show ?case by blast
qed


lemma parse_value_consumes: "parse_value n s = Ok (v, r) \<Longrightarrow> length r < length s"
  using parse_consumes_aux [of n] by blast

lemma literal_not_More: "literal w v s \<noteq> More"
  by (simp add: literal_def)

lemma parse_fuel_aux:
  "(\<forall>s. 2 * length s + 1 \<le> n \<longrightarrow> parse_value n s \<noteq> More) \<and>
   (\<forall>s. 2 * length s + 2 \<le> n \<longrightarrow> parse_elements n s \<noteq> More) \<and>
   (\<forall>s. 2 * length s + 2 \<le> n \<longrightarrow> parse_members n s \<noteq> More)"
proof (induction n)
  case 0
  show ?case by simp
next
  case (Suc n)
  have V: "parse_value (Suc n) s \<noteq> More" if b: "2 * length s + 1 \<le> Suc n" for s
  proof
    assume m: "parse_value (Suc n) s = More"
    then obtain c cs where sk: "skip_ws s = c # cs"
      by (cases "skip_ws s") auto
    note l = skip_ws_Cons_length [OF sk]
    from m sk obtain d ds where sk1: "skip_ws cs = d # ds"
      and "parse_elements n (d # ds) = More \<or> parse_members n (d # ds) = More"
      by (auto simp: literal_not_More split: list.splits if_splits outcome.splits option.splits)
    moreover from skip_ws_Cons_length [OF sk1] l b have "2 * length (d # ds) + 2 \<le> n"
      by simp
    ultimately show False using Suc by blast
  qed
  have E: "parse_elements (Suc n) s \<noteq> More" if b: "2 * length s + 2 \<le> Suc n" for s
  proof
    assume m: "parse_elements (Suc n) s = More"
    from b have "2 * length s + 1 \<le> n" by simp
    with Suc have "parse_value n s \<noteq> More" by blast
    with m obtain v r1 where v: "parse_value n s = Ok (v, r1)"
      by (auto split: outcome.splits)
    note l1 = parse_value_consumes [OF v]
    from m v obtain c cs where sk: "skip_ws r1 = c # cs" and "parse_elements n cs = More"
      by (auto split: list.splits if_splits outcome.splits)
    moreover from skip_ws_Cons_length [OF sk] l1 b have "2 * length cs + 2 \<le> n"
      by simp
    ultimately show False using Suc by blast
  qed
  have M: "parse_members (Suc n) s \<noteq> More" if b: "2 * length s + 2 \<le> Suc n" for s
  proof
    assume m: "parse_members (Suc n) s = More"
    then obtain q ks where sk: "skip_ws s = q # ks"
      by (cases "skip_ws s") auto
    note l0 = skip_ws_Cons_length [OF sk]
    from m sk obtain k r0 where k: "string_chars ks = Some (k, r0)"
      by (auto split: if_splits option.splits)
    note l1 = string_chars_length [OF k]
    from m sk k obtain c cs where sk1: "skip_ws r0 = c # cs"
      by (cases "skip_ws r0") (auto split: if_splits)
    note l2 = skip_ws_Cons_length [OF sk1]
    from l0 l1 l2 b have "2 * length cs + 1 \<le> n" by simp
    with Suc have "parse_value n cs \<noteq> More" by blast
    with m sk k sk1 obtain v r1 where v: "parse_value n cs = Ok (v, r1)"
      by (auto split: if_splits outcome.splits)
    note l3 = parse_value_consumes [OF v]
    from m sk k sk1 v obtain e es where sk2: "skip_ws r1 = e # es"
      and "parse_members n es = More"
      by (auto split: list.splits if_splits outcome.splits)
    moreover from skip_ws_Cons_length [OF sk2] l0 l1 l2 l3 b have "2 * length es + 2 \<le> n"
      by simp
    ultimately show False using Suc by blast
  qed
  from V E M show ?case by blast
qed

lemma JSON_parse_fuel: "JSON_parse s \<noteq> Inl Fuel_exhausted"
proof -
  have "parse_value (2 * length s + 1) s \<noteq> More"
    using parse_fuel_aux [of "2 * length s + 1"] by blast
  then show ?thesis
    by (auto simp: JSON_parse_def split: outcome.splits)
qed

subsection \<open>Parsing a serialised task array gives the array back\<close>

lemma parse_numeral_Suc:
  "parse_value (numeral k) s = parse_value (Suc (pred_numeral k)) s"
  "parse_elements (numeral k) s = parse_elements (Suc (pred_numeral k)) s"
  "parse_members (numeral k) s = parse_members (Suc (pred_numeral k)) s"
  by (simp_all only: numeral_eq_Suc)

lemmas parse_numeral =
  parse_numeral_Suc [unfolded parse_value.simps parse_elements.simps parse_members.simps]

lemma skip_ws_Cons: "\<not> is_ws c \<Longrightarrow> skip_ws (c # r) = c # r"
  by (simp add: skip_ws_def)

lemma ascii_true_false:
  "ascii ''true'' = [0x74, 0x72, 0x75, 0x65]"
  "ascii ''false'' = [0x66, 0x61, 0x6C, 0x73, 0x65]"
  by (simp_all add: ascii_def)

lemma parse_value_bool:
  "parse_value (Suc n) (ascii ''true'' @ r) = Ok (JBool True, r)"
  "parse_value (Suc n) (ascii ''false'' @ r) = Ok (JBool False, r)"
  by (simp_all add: ascii_true_false skip_ws_Cons is_ws_def literal_def)

lemma parse_value_string:
  "parse_value (Suc n) (JSON_quote d @ r) = Ok (JString d, r)"
  by (simp add: JSON_quote_def skip_ws_Cons is_ws_def string_chars_quote_units
      del: string_chars.simps)

lemma parse_members_last:
  "parse_value n (x @ 0x7D # r) = Ok (v, 0x7D # r) \<Longrightarrow>
   parse_members (Suc n) (JSON_quote k @ 0x3A # x @ 0x7D # r) = Ok ([(k, v)], r)"
  by (simp add: JSON_quote_def skip_ws_Cons is_ws_def string_chars_quote_units
      del: string_chars.simps)

lemma parse_members_more:
  "parse_value n (x @ 0x2C # y) = Ok (v, 0x2C # y) \<Longrightarrow>
   parse_members n y = Ok (ms, r) \<Longrightarrow>
   parse_members (Suc n) (JSON_quote k @ 0x3A # x @ 0x2C # y) = Ok ((k, v) # ms, r)"
  by (simp add: JSON_quote_def skip_ws_Cons is_ws_def string_chars_quote_units
      del: string_chars.simps)

lemma JSON_quote_Cons: "JSON_quote k = 0x22 # quote_units k @ [0x22]"
  by (simp add: JSON_quote_def)

lemma parse_value_object:
  "parse_members n (JSON_quote k @ y) = Ok (ms, r) \<Longrightarrow>
   parse_value (Suc n) (0x7B # JSON_quote k @ y) = Ok (JObject ms, r)"
  by (simp add: JSON_quote_def skip_ws_Cons is_ws_def)

lemma parse_value_Task:
  "parse_value (Suc (Suc (Suc (Suc n)))) (stringify_Task t @ r) = Ok (Task_json t, r)"
proof -
  let ?b = "if isCompleted t then ascii ''true'' else ascii ''false''"
  have b: "parse_value (Suc n) (?b @ 0x7D # r) = Ok (JBool (isCompleted t), 0x7D # r)"
    by (cases "isCompleted t") (simp_all only: parse_value_bool if_True if_False)
  have m2: "parse_members (Suc (Suc n)) (JSON_quote (ascii ''isCompleted'') @ 0x3A # ?b @ 0x7D # r)
      = Ok ([(ascii ''isCompleted'', JBool (isCompleted t))], r)"
    by (rule parse_members_last [OF b])
  have d: "parse_value (Suc (Suc n))
      (JSON_quote (description t) @ 0x2C # JSON_quote (ascii ''isCompleted'') @ 0x3A # ?b @ 0x7D # r)
      = Ok (JString (description t), 0x2C # JSON_quote (ascii ''isCompleted'') @ 0x3A # ?b @ 0x7D # r)"
    by (rule parse_value_string)
  have m1: "parse_members (Suc (Suc (Suc n)))
      (JSON_quote (ascii ''description'') @ 0x3A # JSON_quote (description t) @ 0x2C #
        JSON_quote (ascii ''isCompleted'') @ 0x3A # ?b @ 0x7D # r)
      = Ok ([(ascii ''description'', JString (description t)),
             (ascii ''isCompleted'', JBool (isCompleted t))], r)"
    by (rule parse_members_more [OF d m2])
  have eq: "stringify_Task t @ r =
      0x7B # JSON_quote (ascii ''description'') @ 0x3A # JSON_quote (description t) @ 0x2C #
        JSON_quote (ascii ''isCompleted'') @ 0x3A # ?b @ 0x7D # r"
    by (simp add: stringify_Task_def)
  show ?thesis
    unfolding eq Task_json_def by (rule parse_value_object [OF m1])
qed

lemma stringify_Task_Cons: "\<exists>x. stringify_Task t = 0x7B # x"
  by (simp add: stringify_Task_def)

lemma join_comma_Cons:
  "join_comma (map stringify_Task (t # ts)) @ r =
     stringify_Task t @ (if ts = [] then r else 0x2C # join_comma (map stringify_Task ts) @ r)"
  by (cases ts) simp_all

lemma parse_elements_Tasks:
  "length ts + 5 \<le> n \<Longrightarrow>
   parse_elements n (join_comma (map stringify_Task (t # ts)) @ 0x5D # r) =
     Ok (map Task_json (t # ts), r)"
proof (induction ts arbitrary: t n)
  case Nil
  define m where "m = n - 5"
  with Nil have n: "n = Suc (Suc (Suc (Suc (Suc m))))"
    by simp
  show ?case
    unfolding n by (simp add: parse_value_Task skip_ws_Cons is_ws_def del: parse_value.simps)
next
  case (Cons u us)
  define m where "m = n - 5"
  with Cons.prems have n: "n = Suc (Suc (Suc (Suc (Suc m))))"
    and m: "length us + 5 \<le> Suc (Suc (Suc (Suc m)))"
    by simp_all
  from Cons.IH [OF m] show ?case
    unfolding n join_comma_Cons [of t]
    by (simp add: parse_value_Task skip_ws_Cons is_ws_def del: parse_value.simps)
qed

lemma length_join_comma: "length ts \<le> length (join_comma (map stringify_Task ts))"
proof (induction ts rule: induct_list012)
  case 1
  show ?case by simp
next
  case (2 t)
  from stringify_Task_Cons [of t] show ?case by auto
next
  case (3 t u us)
  then show ?case by simp
qed

lemma parse_value_array:
  "parse_elements n (0x7B # y) = Ok (vs, r) \<Longrightarrow>
   parse_value (Suc n) (0x5B # 0x7B # y) = Ok (JArray vs, r)"
  by (simp add: skip_ws_Cons is_ws_def)

lemma JSON_parse_stringify: "JSON_parse (JSON_stringify ts) = Inr (Tasks_json ts)"
proof (cases ts)
  case Nil
  show ?thesis
    unfolding Nil
    by (simp add: JSON_parse_def JSON_stringify_def Tasks_json_def parse_numeral skip_ws_def
        is_ws_def)
next
  case (Cons t us)
  let ?s = "JSON_stringify ts"
  obtain x where x: "stringify_Task t = 0x7B # x"
    using stringify_Task_Cons by blast
  with Cons obtain y where y: "join_comma (map stringify_Task ts) @ [0x5D] = 0x7B # y"
    by (cases us) auto
  have s: "?s = 0x5B # 0x7B # y"
    by (simp add: JSON_stringify_def y)
  have "length us + 5 \<le> 2 * length ?s"
    using length_join_comma [of ts] by (simp add: JSON_stringify_def Cons)
  then have "parse_elements (2 * length ?s) (join_comma (map stringify_Task (t # us)) @ [0x5D]) =
      Ok (map Task_json (t # us), [])"
    by (rule parse_elements_Tasks)
  then have "parse_elements (2 * length ?s) (0x7B # y) = Ok (map Task_json ts, [])"
    by (simp only: y Cons [symmetric])
  then have "parse_value (Suc (2 * length ?s)) (0x5B # 0x7B # y) = Ok (JArray (map Task_json ts), [])"
    by (rule parse_value_array)
  then have "parse_value (2 * length ?s + 1) ?s = Ok (Tasks_json ts, [])"
    by (simp only: s Tasks_json_def Suc_eq_plus1)
  then show ?thesis
    by (simp add: JSON_parse_def skip_ws_def)
qed

lemma json_Task_Task_json: "json_Task (Task_json t) = Some t"
  by (simp add: json_Task_def Task_json_def)

lemma Task_array_Tasks_json: "Task_array (Tasks_json ts) = Some ts"
  by (induction ts) (simp_all add: Task_array_def Tasks_json_def json_Task_Task_json)

section \<open>Properties of the functions of tasks.ts\<close>

subsection \<open>Searching, splicing, rendering, storing\<close>

lemma findIndex_ge: "- 1 \<le> findIndex p xs"
  by (induction xs) (auto simp: Let_def)

lemma findIndex_none: "(findIndex p xs = - 1) = (\<forall>x \<in> set xs. \<not> p x)"
proof (induction xs)
  case Nil
  show ?case by simp
next
  case (Cons x xs)
  from findIndex_ge [of p xs] have "findIndex p xs + 1 \<noteq> - 1" by simp
  with Cons show ?case by (auto simp: Let_def)
qed

lemma findIndex_found:
  "findIndex p xs \<noteq> - 1 \<Longrightarrow>
   \<exists>ys x zs. xs = ys @ x # zs \<and> p x \<and> (\<forall>y \<in> set ys. \<not> p y) \<and>
     findIndex p xs = int (length ys)"
proof (induction xs)
  case Nil
  then show ?case by simp
next
  case (Cons a xs)
  show ?case
  proof (cases "p a")
    case True
    then have "a # xs = [] @ a # xs \<and> p a \<and> (\<forall>y \<in> set []. \<not> p y) \<and>
        findIndex p (a # xs) = int (length ([] :: 'a list))"
      by simp
    then show ?thesis by blast
  next
    case False
    with Cons.prems have ne: "findIndex p xs \<noteq> - 1"
      by (auto simp: Let_def split: if_splits)
    from Cons.IH [OF ne] obtain ys x zs where
      h: "xs = ys @ x # zs" "p x" "\<forall>y \<in> set ys. \<not> p y" "findIndex p xs = int (length ys)"
      by blast
    with False ne have "a # xs = (a # ys) @ x # zs \<and> p x \<and> (\<forall>y \<in> set (a # ys). \<not> p y) \<and>
        findIndex p (a # xs) = int (length (a # ys))"
      by (simp add: Let_def)
    then show ?thesis by blast
  qed
qed

lemma splice1_append: "splice1 (length ys) (ys @ x # zs) = ys @ zs"
  by (simp add: splice1_def)

lemma map_splice1: "map f (splice1 i xs) = splice1 i (map f xs)"
  by (simp add: splice1_def take_map drop_map)

lemma set_splice1: "set (splice1 i xs) \<subseteq> set xs"
  by (auto simp: splice1_def dest: in_set_takeD in_set_dropD)

lemma distinct_splice1: "distinct xs \<Longrightarrow> distinct (splice1 i xs)"
proof -
  assume d: "distinct xs"
  have "distinct (take i xs @ drop i xs)" using d by simp
  then have "set (take i xs) \<inter> set (drop i xs) = {}" by (simp only: distinct_append)
  moreover have "set (drop (Suc i) xs) \<subseteq> set (drop i xs)"
    by (rule set_drop_subset_set_drop) simp
  ultimately show ?thesis using d by (auto simp: splice1_def)
qed

lemma renderTask_frame:
  "heap (renderTask a s) = heap s" "tasks (renderTask a s) = tasks s"
  "taskForm (renderTask a s) = taskForm s" "formInput (renderTask a s) = formInput s"
  "localStorage (renderTask a s) = localStorage s" "effects (renderTask a s) = effects s"
  by (simp_all add: renderTask_def split: option.splits)

lemma renderTask_None: "taskListElement s = None \<Longrightarrow> renderTask a s = s"
  by (simp add: renderTask_def)

lemma renderTask_Some:
  "taskListElement s = Some ch \<Longrightarrow>
   \<exists>e. task_ref e = a \<and> taskListElement (renderTask a s) = Some (ch @ [e])"
  by (simp add: renderTask_def)

lemma fold_renderTask_frame:
  "heap (fold renderTask as s) = heap s \<and> tasks (fold renderTask as s) = tasks s \<and>
   taskForm (fold renderTask as s) = taskForm s \<and> formInput (fold renderTask as s) = formInput s \<and>
   localStorage (fold renderTask as s) = localStorage s \<and>
   effects (fold renderTask as s) = effects s"
  by (induction as arbitrary: s) (simp_all add: renderTask_frame)

lemma fold_renderTask_None: "taskListElement s = None \<Longrightarrow> fold renderTask as s = s"
  by (induction as arbitrary: s) (simp_all add: renderTask_None)

lemma fold_renderTask_Some:
  "taskListElement s = Some ch \<Longrightarrow>
   \<exists>es. map task_ref es = as \<and> taskListElement (fold renderTask as s) = Some (ch @ es)"
proof (induction as arbitrary: s ch)
  case Nil
  then show ?case by simp
next
  case (Cons a as)
  from renderTask_Some [OF Cons.prems, of a] obtain e where
    e: "task_ref e = a" "taskListElement (renderTask a s) = Some (ch @ [e])"
    by blast
  from Cons.IH [OF e(2)] obtain es where
    "map task_ref es = as" "taskListElement (fold renderTask as (renderTask a s)) = Some ((ch @ [e]) @ es)"
    by blast
  with e(1) have "map task_ref (e # es) = a # as \<and>
      taskListElement (fold renderTask (a # as) s) = Some (ch @ e # es)"
    by simp
  then show ?case by (rule exI [where x = "e # es"])
qed

lemma task_values_fold_renderTask: "task_values (fold renderTask as s) = task_values s"
  by (simp add: task_values_def fold_renderTask_frame)

lemma updateStorage_frame:
  "heap (updateStorage s) = heap s" "tasks (updateStorage s) = tasks s"
  "taskForm (updateStorage s) = taskForm s" "formInput (updateStorage s) = formInput s"
  "taskListElement (updateStorage s) = taskListElement s"
  "task_values (updateStorage s) = task_values s"
  by (simp_all add: updateStorage_def task_values_def)

lemma updateStorage_snapshot:
  "localStorage (updateStorage s) (ascii ''tasks'') = Some (JSON_stringify (task_values s))"
  by (simp add: updateStorage_def)


lemma Task_same_pair:
  "(description a = description b \<and> isCompleted a = isCompleted b) = (a = (b :: Task))"
  by (cases a, cases b) simp

lemma deleteTask_index:
  "deleteTask t s =
     (let i = findIndex (\<lambda>x. x = heap s ! t) (task_values s)
      in if i \<noteq> - 1 then
           (let s2 = updateStorage (s\<lparr>tasks := splice1 (nat i) (tasks s)\<rparr>)
            in case taskListElement s2 of
                 None \<Rightarrow> Inr s2
               | Some ch \<Rightarrow> Inr (fold renderTask (tasks s2) (s2\<lparr>taskListElement := Some []\<rparr>)))
         else Inr s)"
  by (simp add: deleteTask_def Task_same_pair Let_def set_innerHTML_empty_def
      split: option.splits)

lemma deleteTask_no_match:
  "heap s ! t \<notin> set (task_values s) \<Longrightarrow> deleteTask t s = Inr s"
proof -
  assume "heap s ! t \<notin> set (task_values s)"
  then have "findIndex (\<lambda>x. x = heap s ! t) (task_values s) = - 1"
    by (auto simp: findIndex_none)
  then show ?thesis
    by (simp add: deleteTask_index)
qed

lemma deleteTask_match:
  assumes "heap s ! t \<in> set (task_values s)"
  shows "\<exists>s' xs zs. deleteTask t s = Inr s' \<and>
     task_values s = xs @ (heap s ! t) # zs \<and> heap s ! t \<notin> set xs \<and>
     tasks s' = splice1 (length xs) (tasks s) \<and> task_values s' = xs @ zs \<and>
     heap s' = heap s \<and> taskForm s' = taskForm s \<and> formInput s' = formInput s \<and>
     localStorage s' = (localStorage s)(ascii ''tasks'' \<mapsto> JSON_stringify (xs @ zs)) \<and>
     effects s' = effects s @ [SetItem (ascii ''tasks'') (JSON_stringify (xs @ zs))] \<and>
     (case taskListElement s of
        None \<Rightarrow> taskListElement s' = None
      | Some ch \<Rightarrow> \<exists>es. map task_ref es = tasks s' \<and> taskListElement s' = Some es)"
proof -
  let ?p = "\<lambda>x. x = heap s ! t"
  let ?i = "findIndex ?p (task_values s)"
  from assms have ne: "?i \<noteq> - 1"
    by (auto simp: findIndex_none)
  from findIndex_found [OF ne] obtain xs zs where
    d: "task_values s = xs @ (heap s ! t) # zs" "heap s ! t \<notin> set xs" "?i = int (length xs)"
    by auto
  let ?s1 = "s\<lparr>tasks := splice1 (length xs) (tasks s)\<rparr>"
  let ?s2 = "updateStorage ?s1"
  have tv: "task_values ?s1 = xs @ zs"
    using d(1) by (simp add: task_values_def map_splice1 splice1_append)
  show ?thesis
  proof (cases "taskListElement s")
    case None
    with ne d(3) have r: "deleteTask t s = Inr ?s2"
      by (simp add: deleteTask_index updateStorage_frame)
    have "deleteTask t s = Inr ?s2 \<and>
     task_values s = xs @ (heap s ! t) # zs \<and> heap s ! t \<notin> set xs \<and>
     tasks ?s2 = splice1 (length xs) (tasks s) \<and> task_values ?s2 = xs @ zs \<and>
     heap ?s2 = heap s \<and> taskForm ?s2 = taskForm s \<and> formInput ?s2 = formInput s \<and>
     localStorage ?s2 = (localStorage s)(ascii ''tasks'' \<mapsto> JSON_stringify (xs @ zs)) \<and>
     effects ?s2 = effects s @ [SetItem (ascii ''tasks'') (JSON_stringify (xs @ zs))] \<and>
     (case taskListElement s of
        None \<Rightarrow> taskListElement ?s2 = None
      | Some ch \<Rightarrow> \<exists>es. map task_ref es = tasks ?s2 \<and> taskListElement ?s2 = Some es)"
      using r d(1,2) tv None
      by (simp add: updateStorage_frame) (simp add: updateStorage_def)
    then show ?thesis by blast
  next
    case (Some ch)
    let ?s3 = "fold renderTask (tasks ?s2) (?s2\<lparr>taskListElement := Some []\<rparr>)"
    from Some ne d(3) have r: "deleteTask t s = Inr ?s3"
      by (simp add: deleteTask_index updateStorage_frame)
    from fold_renderTask_Some [of "?s2\<lparr>taskListElement := Some []\<rparr>" "[]" "tasks ?s2"]
    obtain es where es: "map task_ref es = tasks ?s2" "taskListElement ?s3 = Some es"
      by auto
    have fr: "heap ?s3 = heap s" "tasks ?s3 = splice1 (length xs) (tasks s)"
      "taskForm ?s3 = taskForm s" "formInput ?s3 = formInput s"
      "localStorage ?s3 = localStorage ?s2" "effects ?s3 = effects ?s2"
      by (simp_all add: fold_renderTask_frame updateStorage_frame)
    have tv3: "task_values ?s3 = xs @ zs"
      using tv by (simp add: task_values_fold_renderTask) (simp add: task_values_def updateStorage_frame)
    have "deleteTask t s = Inr ?s3 \<and>
     task_values s = xs @ (heap s ! t) # zs \<and> heap s ! t \<notin> set xs \<and>
     tasks ?s3 = splice1 (length xs) (tasks s) \<and> task_values ?s3 = xs @ zs \<and>
     heap ?s3 = heap s \<and> taskForm ?s3 = taskForm s \<and> formInput ?s3 = formInput s \<and>
     localStorage ?s3 = (localStorage s)(ascii ''tasks'' \<mapsto> JSON_stringify (xs @ zs)) \<and>
     effects ?s3 = effects s @ [SetItem (ascii ''tasks'') (JSON_stringify (xs @ zs))] \<and>
     (case taskListElement s of
        None \<Rightarrow> taskListElement ?s3 = None
      | Some ch \<Rightarrow> \<exists>es. map task_ref es = tasks ?s3 \<and> taskListElement ?s3 = Some es)"
      using r d(1,2) tv tv3 Some es fr
      by (simp add: updateStorage_frame) (simp add: updateStorage_def)
    then show ?thesis by blast
  qed
qed

subsection \<open>The listeners\<close>

lemma task_values_heap_append:
  "\<forall>a \<in> set (tasks s). a < length (heap s) \<Longrightarrow>
   task_values (s\<lparr>heap := heap s @ ts\<rparr>) = task_values s"
  by (simp add: task_values_def nth_append)

lemma submit_handler_add:
  assumes "formInput s = Some d" "d \<noteq> []"
  shows "\<exists>s'. submit_handler s = Inr s' \<and>
     heap s' = heap s @ [\<lparr>description = d, isCompleted = False\<rparr>] \<and>
     tasks s' = tasks s @ [length (heap s)] \<and>
     taskForm s' = taskForm s \<and> formInput s' = Some [] \<and>
     taskListElement s' =
       (case taskListElement s of
          None \<Rightarrow> None
        | Some ch \<Rightarrow>
            Some (ch @ [\<lparr>span_text = d, checkbox_checked = False, task_ref = length (heap s)\<rparr>])) \<and>
     localStorage s' = (localStorage s)(ascii ''tasks'' \<mapsto> JSON_stringify (task_values s')) \<and>
     effects s' = effects s @
       [ConsoleLog (task_values s'), SetItem (ascii ''tasks'') (JSON_stringify (task_values s'))]"
  using assms
  by (simp add: submit_handler_def Let_def addTask_def renderTask_def updateStorage_def
      set_value_def task_values_def split: option.splits)

lemma submit_handler_empty:
  "formInput s = None \<or> formInput s = Some [] \<Longrightarrow>
   submit_handler s = Inr (alert (ascii ''Please enter a task description'') s)"
  by (auto simp: submit_handler_def)

lemma change_handler_frame:
  "tasks (change_handler t s) = tasks s" "taskForm (change_handler t s) = taskForm s"
  "formInput (change_handler t s) = formInput s"
  "taskListElement (change_handler t s) = taskListElement s"
  "length (heap (change_handler t s)) = length (heap s)"
  "heap (change_handler t s) =
     (heap s)[t := (heap s ! t)\<lparr>isCompleted := \<not> isCompleted (heap s ! t)\<rparr>]"
  "localStorage (change_handler t s) (ascii ''tasks'') =
     Some (JSON_stringify (task_values (change_handler t s)))"
  by (simp_all add: change_handler_def updateStorage_def task_values_def)

lemma fire_total: "\<exists>s'. fire ev s = Inr s'"
proof (cases ev)
  case (Type v)
  then show ?thesis by (simp add: fire_def split: option.splits)
next
  case Submit
  show ?thesis
  proof (cases "formInput s = None \<or> formInput s = Some []")
    case True
    from submit_handler_empty [OF this] Submit show ?thesis
      by (simp add: fire_def)
  next
    case False
    then obtain d where "formInput s = Some d" "d \<noteq> []" by auto
    from submit_handler_add [OF this] Submit show ?thesis
      by (auto simp: fire_def)
  qed
next
  case (Change i)
  then show ?thesis by (simp add: fire_def split: option.splits)
next
  case (Click i)
  have "\<exists>s'. deleteTask t s = Inr s'" for t
    using deleteTask_match [of s t] deleteTask_no_match [of s t] by blast
  with Click show ?thesis by (simp add: fire_def split: option.splits)
qed

lemma map_task_ref_checkbox:
  "i < length ch \<Longrightarrow>
   map task_ref (ch[i := (ch ! i)\<lparr>checkbox_checked := b\<rparr>]) = map task_ref ch"
  by (rule nth_equalityI) (auto simp: nth_list_update)

lemma well_formed_fire:
  assumes "well_formed s" "fire ev s = Inr s'"
  shows "well_formed s'"
proof (cases ev)
  case (Type v)
  with assms show ?thesis by (auto simp: fire_def well_formed_def split: option.splits)
next
  case Submit
  show ?thesis
  proof (cases "taskForm s \<and> \<not> (formInput s = None \<or> formInput s = Some [])")
    case False
    with assms Submit submit_handler_empty [of s] show ?thesis
      by (auto simp: fire_def well_formed_def alert_def split: if_splits option.splits)
  next
    case True
    then obtain d where d: "formInput s = Some d" "d \<noteq> []" by auto
    from submit_handler_add [OF d] assms(2) Submit True
    have h: "heap s' = heap s @ [\<lparr>description = d, isCompleted = False\<rparr>]"
      "tasks s' = tasks s @ [length (heap s)]"
      "taskListElement s' =
       (case taskListElement s of
          None \<Rightarrow> None
        | Some ch \<Rightarrow>
            Some (ch @ [\<lparr>span_text = d, checkbox_checked = False, task_ref = length (heap s)\<rparr>]))"
      by (auto simp: fire_def)
    from assms(1) show ?thesis
      unfolding well_formed_def h by (auto split: option.splits)
  qed
next
  case (Change i)
  with assms show ?thesis
    by (auto simp: fire_def well_formed_def change_handler_frame map_task_ref_checkbox
        split: option.splits if_splits)
next
  case (Click i)
  show ?thesis
  proof (cases "taskListElement s")
    case None
    with assms Click show ?thesis by (simp add: fire_def)
  next
    case (Some ch)
    show ?thesis
    proof (cases "i < length ch")
      case False
      with assms Click Some show ?thesis by (simp add: fire_def)
    next
      case True
      let ?t = "task_ref (ch ! i)"
      from assms Click Some True have r: "deleteTask ?t s = Inr s'"
        by (simp add: fire_def)
      show ?thesis
      proof (cases "heap s ! ?t \<in> set (task_values s)")
        case False
        from deleteTask_no_match [OF this] r assms(1) show ?thesis by simp
      next
        case m: True
        from deleteTask_match [OF m] r Some obtain xs :: "Task list" and es where
          h: "tasks s' = splice1 (length xs) (tasks s)" "heap s' = heap s"
            "map task_ref es = tasks s'" "taskListElement s' = Some es"
          by auto
        from assms(1) have "\<forall>a \<in> set (tasks s). a < length (heap s)" "distinct (tasks s)"
          by (simp_all add: well_formed_def)
        with set_splice1 [of "length xs" "tasks s"] distinct_splice1 [of "tasks s" "length xs"]
        have "\<forall>a \<in> set (tasks s'). a < length (heap s')" "distinct (tasks s')"
          unfolding h by auto
        with h(3,4) show ?thesis by (simp add: well_formed_def)
      qed
    qed
  qed
qed

lemma well_formed_run: "well_formed s \<Longrightarrow> run evs s = Inr s' \<Longrightarrow> well_formed s'"
proof (induction evs arbitrary: s)
  case Nil
  then show ?case by simp
next
  case (Cons ev evs)
  from fire_total [of ev s] obtain s1 where s1: "fire ev s = Inr s1" by blast
  with Cons.prems(2) have "run evs s1 = Inr s'" by simp
  with Cons.IH well_formed_fire [OF Cons.prems(1) s1] show ?case by blast
qed

lemma run_total: "\<exists>s'. run evs s = Inr s'"
proof (induction evs arbitrary: s)
  case Nil
  show ?case by simp
next
  case (Cons ev evs)
  from fire_total [of ev s] obtain s1 where "fire ev s = Inr s1" by blast
  with Cons [of s1] show ?case by simp
qed

lemma well_formed_startup: "startup form input list store = Some (Inr s) \<Longrightarrow> well_formed s"
proof -
  assume a: "startup form input list store = Some (Inr s)"
  then obtain ts where
    s: "s = fold renderTask [0..<length ts]
          \<lparr>heap = ts, tasks = [0..<length ts], taskForm = form, formInput = input,
           taskListElement = (if list then Some [] else None),
           localStorage = store, effects = []\<rparr>"
    by (auto simp: startup_def Let_def split: sum.splits option.splits)
  let ?s0 = "\<lparr>heap = ts, tasks = [0..<length ts], taskForm = form, formInput = input,
           taskListElement = (if list then Some [] else None),
           localStorage = store, effects = []\<rparr>"
  have f: "heap s = ts" "tasks s = [0..<length ts]"
    unfolding s by (simp_all add: fold_renderTask_frame)
  show ?thesis
  proof (cases list)
    case True
    from fold_renderTask_Some [of ?s0 "[]" "[0..<length ts]"] True
    obtain es where "map task_ref es = [0..<length ts]" "taskListElement s = Some es"
      unfolding s by auto
    with f show ?thesis by (simp add: well_formed_def)
  next
    case False
    then have "taskListElement s = None"
      unfolding s by (simp add: fold_renderTask_None)
    with f show ?thesis by (simp add: well_formed_def)
  qed
qed

lemma operation_persists:
  assumes "well_formed s" "operation ev s"
  shows "\<exists>s'. fire ev s = Inr s' \<and>
    localStorage s' (ascii ''tasks'') = Some (JSON_stringify (task_values s'))"
proof (cases ev)
  case (Type v)
  with assms show ?thesis by (simp add: operation_def)
next
  case Submit
  with assms(2) obtain d where d: "formInput s = Some d" "d \<noteq> []" and f: "taskForm s"
    by (auto simp: operation_def split: option.splits)
  from submit_handler_add [OF d] Submit f show ?thesis
    by (auto simp: fire_def)
next
  case (Change i)
  with assms(2) show ?thesis
    by (auto simp: operation_def fire_def change_handler_frame split: option.splits)
next
  case (Click i)
  with assms(2) obtain ch where ch: "taskListElement s = Some ch" "i < length ch"
    by (auto simp: operation_def split: option.splits)
  let ?t = "task_ref (ch ! i)"
  from assms(1) ch have "map task_ref ch = tasks s" by (simp add: well_formed_def)
  with ch(2) have "?t \<in> set (tasks s)"
    by (metis length_map nth_map nth_mem)
  then have "heap s ! ?t \<in> set (task_values s)"
    by (simp add: task_values_def)
  from deleteTask_match [OF this] Click ch show ?thesis
    by (auto simp: fire_def)
qed

subsection \<open>Loading what was stored\<close>

lemma JSON_parse_error: "JSON_parse t = Inl e \<Longrightarrow> e = SyntaxError"
  using JSON_parse_fuel [of t]
  by (auto simp: JSON_parse_def split: outcome.splits if_splits)

lemma JSON_stringify_not_empty: "JSON_stringify ts \<noteq> []"
  by (simp add: JSON_stringify_def)

lemma loadTasks_stringify:
  "store (ascii ''tasks'') = Some (JSON_stringify ts) \<Longrightarrow> loadTasks store = Inr (Tasks_json ts)"
  by (simp add: loadTasks_def JSON_stringify_not_empty JSON_parse_stringify)

lemma JSON_stringify_taskA: "JSON_stringify [taskA] = snapshotA"
  by (simp add: JSON_stringify_def stringify_Task_def JSON_quote_def taskA_def snapshotA_def
      ascii_def is_leading_surrogate_def is_trailing_surrogate_def)

lemma task_values_startup:
  "task_values (fold renderTask as
     \<lparr>heap = ts, tasks = [0..<length ts], taskForm = form, formInput = input,
      taskListElement = l, localStorage = store, effects = []\<rparr>) = ts"
  by (simp add: task_values_fold_renderTask) (simp add: task_values_def map_nth)

lemma startup_stringify:
  "store (ascii ''tasks'') = Some (JSON_stringify ts) \<Longrightarrow>
   \<exists>s0. startup form input list store = Some (Inr s0) \<and> task_values s0 = ts \<and>
     localStorage s0 = store"
  by (simp add: startup_def loadTasks_stringify Task_array_Tasks_json Let_def
      task_values_startup fold_renderTask_frame)


subsection \<open>Two runs of the example pages\<close>

lemma startup_pageA:
  "startup True (Some []) True [ascii ''tasks'' \<mapsto> snapshotA] = Some (Inr pageA)"
proof -
  have "[ascii ''tasks'' \<mapsto> snapshotA] (ascii ''tasks'') = Some (JSON_stringify [taskA])"
    by (simp add: JSON_stringify_taskA)
  then have "loadTasks [ascii ''tasks'' \<mapsto> snapshotA] = Inr (Tasks_json [taskA])"
    by (rule loadTasks_stringify)
  then show ?thesis
    by (simp add: startup_def Task_array_Tasks_json pageA_def renderTask_def taskA_def)
qed

lemma run_pageAB: "run [Type (ascii ''B''), Submit] pageA = Inr pageAB"
  by (simp add: fire_def pageA_def pageAB_def submit_handler_def Let_def addTask_def
      renderTask_def updateStorage_def set_value_def task_values_def ascii_def)

lemma loadTasks_error: "loadTasks store = Inl e \<Longrightarrow> e = SyntaxError"
  by (auto simp: loadTasks_def split: option.splits if_splits dest: JSON_parse_error)


subsection \<open>The checkbox of an item\<close>

lemma well_formed_row:
  assumes "well_formed s" "taskListElement s = Some ch" "i < length ch"
  shows "tasks s ! i = task_ref (ch ! i)" "i < length (tasks s)"
    "task_ref (ch ! i) < length (heap s)"
proof -
  from assms(1,2) have m: "map task_ref ch = tasks s"
    by (simp add: well_formed_def)
  from m assms(3) show 1: "tasks s ! i = task_ref (ch ! i)"
    by (metis nth_map)
  from m assms(3) show 2: "i < length (tasks s)"
    by (metis length_map)
  from 1 2 have "task_ref (ch ! i) \<in> set (tasks s)"
    by (metis nth_mem)
  with assms(1) show "task_ref (ch ! i) < length (heap s)"
    by (simp add: well_formed_def)
qed

lemma fire_Change:
  "taskListElement s = Some ch \<Longrightarrow> i < length ch \<Longrightarrow>
   fire (Change i) s =
     Inr (change_handler (task_ref (ch ! i))
           (s\<lparr>taskListElement :=
                Some (ch[i := (ch ! i)\<lparr>checkbox_checked := \<not> checkbox_checked (ch ! i)\<rparr>])\<rparr>))"
  by (simp add: fire_def)


section \<open>The claims\<close>

text \<open>
  C4. On every page, submitting a description adds one task at the end of the
  sequence: the length grows by one and the last task has that description and is not
  completed. Nothing looks for an equal task: the number of tasks equal to the new one
  grows by one as well.
\<close>

theorem add_appends_task:
  assumes "well_formed s" and "formInput s = Some d" and "d \<noteq> []"
  shows "\<exists>s'. submit_handler s = Inr s' \<and>
    task_values s' = task_values s @ [\<lparr>description = d, isCompleted = False\<rparr>] \<and>
    length (task_values s') = length (task_values s) + 1 \<and>
    last (task_values s') = \<lparr>description = d, isCompleted = False\<rparr> \<and>
    count_list (task_values s') \<lparr>description = d, isCompleted = False\<rparr> =
      count_list (task_values s) \<lparr>description = d, isCompleted = False\<rparr> + 1"
proof -
  from submit_handler_add [OF assms(2,3)] obtain s' where
    r: "submit_handler s = Inr s'"
    and h: "heap s' = heap s @ [\<lparr>description = d, isCompleted = False\<rparr>]"
    and t: "tasks s' = tasks s @ [length (heap s)]"
    by blast
  from assms(1) have "\<forall>a \<in> set (tasks s). a < length (heap s)"
    by (simp add: well_formed_def)
  then have "task_values s' = task_values s @ [\<lparr>description = d, isCompleted = False\<rparr>]"
    by (simp add: task_values_def h t nth_append)
  with r show ?thesis by simp
qed

theorem add_appends_task_witness:
  "well_formed twins_page \<and> formInput twins_page = Some (ascii ''A'') \<and>
   (\<exists>s'. submit_handler twins_page = Inr s' \<and>
      task_values s' =
        [\<lparr>description = ascii ''A'', isCompleted = False\<rparr>,
         \<lparr>description = ascii ''B'', isCompleted = False\<rparr>,
         \<lparr>description = ascii ''A'', isCompleted = False\<rparr>,
         \<lparr>description = ascii ''A'', isCompleted = False\<rparr>])"
proof -
  have w: "well_formed twins_page"
    by (simp add: well_formed_def twins_page_def)
  have i: "formInput twins_page = Some (ascii ''A'')"
    by (simp add: twins_page_def)
  have n: "ascii ''A'' \<noteq> []"
    by (simp add: ascii_def)
  have v: "task_values twins_page =
      [\<lparr>description = ascii ''A'', isCompleted = False\<rparr>,
       \<lparr>description = ascii ''B'', isCompleted = False\<rparr>,
       \<lparr>description = ascii ''A'', isCompleted = False\<rparr>]"
    by (simp add: task_values_def twins_page_def)
  from add_appends_task [OF w i n] obtain s' where
    "submit_handler twins_page = Inr s'"
    "task_values s' =
       task_values twins_page @ [\<lparr>description = ascii ''A'', isCompleted = False\<rparr>]"
    by blast
  with w i show ?thesis
    by (simp add: v)
qed

text \<open>
  C5. Deleting removes the first task of the sequence whose description and flag
  are those of the target, and nothing else: the tasks before it and after it stay,
  in their order. When no task has the target's description and flag, the page is
  left as it was.
\<close>

theorem deleteTask_removes_first_match:
  "\<exists>s'. deleteTask t s = Inr s' \<and>
     task_values s' = remove1 (heap s ! t) (task_values s) \<and>
     (if \<exists>x \<in> set (task_values s).
           description x = description (heap s ! t) \<and> isCompleted x = isCompleted (heap s ! t)
      then \<exists>xs y zs. task_values s = xs @ y # zs \<and>
             description y = description (heap s ! t) \<and>
             isCompleted y = isCompleted (heap s ! t) \<and>
             (\<forall>x \<in> set xs. \<not> (description x = description (heap s ! t) \<and>
                                 isCompleted x = isCompleted (heap s ! t))) \<and>
             task_values s' = xs @ zs
      else s' = s)"
proof (cases "heap s ! t \<in> set (task_values s)")
  case True
  from deleteTask_match [OF True] obtain s' xs zs where
    h: "deleteTask t s = Inr s'" "task_values s = xs @ (heap s ! t) # zs"
      "heap s ! t \<notin> set xs" "task_values s' = xs @ zs"
    by blast
  from h(2,3,4) have r: "task_values s' = remove1 (heap s ! t) (task_values s)"
    by (simp add: remove1_append)
  from h(3) have "\<forall>x \<in> set xs. \<not> (description x = description (heap s ! t) \<and>
      isCompleted x = isCompleted (heap s ! t))"
    by (auto simp: Task_same_pair)
  with h(2,4) have "\<exists>xs y zs. task_values s = xs @ y # zs \<and>
             description y = description (heap s ! t) \<and>
             isCompleted y = isCompleted (heap s ! t) \<and>
             (\<forall>x \<in> set xs. \<not> (description x = description (heap s ! t) \<and>
                                 isCompleted x = isCompleted (heap s ! t))) \<and>
             task_values s' = xs @ zs"
    by blast
  moreover from True have "\<exists>x \<in> set (task_values s).
      description x = description (heap s ! t) \<and> isCompleted x = isCompleted (heap s ! t)"
    by blast
  ultimately show ?thesis using h(1) r by auto
next
  case False
  from deleteTask_no_match [OF False] False show ?thesis
    by (auto simp: Task_same_pair remove1_idem)
qed

theorem deleteTask_removes_first_match_witness:
  "\<exists>s'. deleteTask 2 twins_page = Inr s' \<and>
     task_values s' =
       [\<lparr>description = ascii ''B'', isCompleted = False\<rparr>,
        \<lparr>description = ascii ''A'', isCompleted = False\<rparr>]"
proof -
  have v: "task_values twins_page =
      [\<lparr>description = ascii ''A'', isCompleted = False\<rparr>,
       \<lparr>description = ascii ''B'', isCompleted = False\<rparr>,
       \<lparr>description = ascii ''A'', isCompleted = False\<rparr>]"
    by (simp add: task_values_def twins_page_def)
  have h: "heap twins_page ! 2 = \<lparr>description = ascii ''A'', isCompleted = False\<rparr>"
    by (simp add: twins_page_def)
  from deleteTask_removes_first_match [of 2 twins_page] show ?thesis
    unfolding v h by (auto simp: ascii_def)
qed

text \<open>
  C10. When no task of the sequence has the description and flag of the target,
  deleting returns the very same page: the array, the stored snapshot, the list and
  the record of storage writes are untouched.
\<close>

theorem deleteTask_without_match:
  assumes "\<forall>x \<in> set (task_values s).
     \<not> (description x = description (heap s ! t) \<and> isCompleted x = isCompleted (heap s ! t))"
  shows "deleteTask t s = Inr s"
proof -
  from assms have "heap s ! t \<notin> set (task_values s)"
    by blast
  then show ?thesis
    by (rule deleteTask_no_match)
qed

theorem deleteTask_without_match_witness:
  "deleteTask 3 twins_page = Inr twins_page \<and>
   localStorage twins_page (ascii ''tasks'') = Some (ascii ''[ ]'') \<and>
   effects twins_page = []"
proof -
  have "\<forall>x \<in> set (task_values twins_page).
     \<not> (description x = description (heap twins_page ! 3) \<and>
        isCompleted x = isCompleted (heap twins_page ! 3))"
    by (simp add: task_values_def twins_page_def)
  from deleteTask_without_match [OF this] show ?thesis
    by (simp add: twins_page_def)
qed

text \<open>
  C2 (as amended). \<open>loadTasks\<close> returns the empty array when nothing is stored
  under the key and when the stored string is empty; it returns the parsed value when
  the stored string parses, which for a serialised task sequence is that sequence; and
  when a non-empty stored string does not parse, the SyntaxError of the parser comes out
  of \<open>loadTasks\<close>.
\<close>

theorem loadTasks_results:
  "(store (ascii ''tasks'') = None \<or> store (ascii ''tasks'') = Some [] \<longrightarrow>
      loadTasks store = Inr (JArray [])) \<and>
   (\<forall>t v. store (ascii ''tasks'') = Some t \<and> JSON_parse t = Inr v \<longrightarrow>
      loadTasks store = Inr v) \<and>
   (\<forall>ts. store (ascii ''tasks'') = Some (JSON_stringify ts) \<longrightarrow>
      loadTasks store = Inr (Tasks_json ts) \<and> Task_array (Tasks_json ts) = Some ts) \<and>
   (\<forall>t e. store (ascii ''tasks'') = Some t \<and> t \<noteq> [] \<and> JSON_parse t = Inl e \<longrightarrow>
      loadTasks store = Inl SyntaxError)"
proof -
  have "JSON_parse [] = Inl SyntaxError"
    by (simp add: JSON_parse_def skip_ws_def)
  then have a: "loadTasks store = Inr v"
    if "store (ascii ''tasks'') = Some t" "JSON_parse t = Inr v" for t v
    using that by (auto simp: loadTasks_def)
  have b: "loadTasks store = Inl SyntaxError"
    if "store (ascii ''tasks'') = Some t" "t \<noteq> []" "JSON_parse t = Inl e" for t e
    using that JSON_parse_error [of t e] by (simp add: loadTasks_def)
  have c: "store (ascii ''tasks'') = None \<or> store (ascii ''tasks'') = Some [] \<longrightarrow>
      loadTasks store = Inr (JArray [])"
    by (auto simp: loadTasks_def)
  from a b c loadTasks_stringify [of store] Task_array_Tasks_json show ?thesis
    by blast
qed

theorem loadTasks_results_witness:
  \<open>loadTasks Map.empty = Inr (JArray []) \<and>
   loadTasks [ascii ''tasks'' \<mapsto> snapshotA] = Inr (Tasks_json [taskA]) \<and>
   Task_array (Tasks_json [taskA]) = Some [taskA] \<and>
   JSON_parse (ascii ''{'') = Inl SyntaxError \<and>
   loadTasks [ascii ''tasks'' \<mapsto> ascii ''{''] = Inl SyntaxError\<close>
proof -
  have p: \<open>JSON_parse (ascii ''{'') = Inl SyntaxError\<close>
    by (simp add: JSON_parse_def ascii_def skip_ws_def is_ws_def parse_numeral)
  have n: \<open>ascii ''{'' \<noteq> []\<close>
    by (simp add: ascii_def)
  have s: "[ascii ''tasks'' \<mapsto> snapshotA] (ascii ''tasks'') = Some (JSON_stringify [taskA])"
    by (simp add: JSON_stringify_taskA)
  have k: \<open>[ascii ''tasks'' \<mapsto> ascii ''{''] (ascii ''tasks'') = Some (ascii ''{'')\<close>
    by simp
  from loadTasks_results [of Map.empty] have 1: "loadTasks Map.empty = Inr (JArray [])"
    by simp
  from loadTasks_results [of "[ascii ''tasks'' \<mapsto> snapshotA]"] s
  have 2: "loadTasks [ascii ''tasks'' \<mapsto> snapshotA] = Inr (Tasks_json [taskA]) \<and>
      Task_array (Tasks_json [taskA]) = Some [taskA]"
    by blast
  from loadTasks_results [of \<open>[ascii ''tasks'' \<mapsto> ascii ''{'']\<close>] k n p
  have 3: \<open>loadTasks [ascii ''tasks'' \<mapsto> ascii ''{''] = Inl SyntaxError\<close>
    by blast
  from 1 2 3 p show ?thesis by simp
qed

text \<open>
  C2, as the claim states it, fails: on the stored string \<^verbatim>\<open>{\<close> the parser's
  SyntaxError leaves \<open>loadTasks\<close>, and the start-up ends with it.
\<close>

theorem loadTasks_corrupt_counterexample:
  \<open>loadTasks [ascii ''tasks'' \<mapsto> ascii ''{''] = Inl SyntaxError \<and>
   loadTasks [ascii ''tasks'' \<mapsto> ascii ''{''] \<noteq> Inr (JArray []) \<and>
   startup True (Some []) True [ascii ''tasks'' \<mapsto> ascii ''{''] = Some (Inl SyntaxError)\<close>
proof -
  have p: \<open>JSON_parse (ascii ''{'') = Inl SyntaxError\<close>
    by (simp add: JSON_parse_def ascii_def skip_ws_def is_ws_def parse_numeral)
  have n: \<open>ascii ''{'' \<noteq> []\<close>
    by (simp add: ascii_def)
  from p n have \<open>loadTasks [ascii ''tasks'' \<mapsto> ascii ''{''] = Inl SyntaxError\<close>
    by (simp add: loadTasks_def)
  then show ?thesis
    by (simp add: startup_def)
qed

text \<open>
  C7. Parsing the serialisation of a task sequence gives the sequence back, so
  \<open>loadTasks\<close> on the storage that \<open>updateStorage\<close> wrote returns the sequence that
  was in memory, and a start-up on that storage has this sequence as its tasks. The
  snapshot \<^verbatim>\<open>[{"description":"A","isCompleted":true}]\<close> is the serialisation of the
  one task A, completed, and loads as that task.
\<close>

theorem load_inverts_persist:
  "JSON_parse (JSON_stringify ts) = Inr (Tasks_json ts) \<and>
   Task_array (Tasks_json ts) = Some ts \<and>
   loadTasks (localStorage (updateStorage s)) = Inr (Tasks_json (task_values s)) \<and>
   (\<exists>s0. startup form input list (localStorage (updateStorage s)) = Some (Inr s0) \<and>
      task_values s0 = task_values s) \<and>
   loadTasks [ascii ''tasks'' \<mapsto> snapshotA] = Inr (Tasks_json [taskA]) \<and>
   (\<exists>s0. startup form input list [ascii ''tasks'' \<mapsto> snapshotA] = Some (Inr s0) \<and>
      task_values s0 = [taskA])"
proof -
  have u: "localStorage (updateStorage s) (ascii ''tasks'') =
      Some (JSON_stringify (task_values s))"
    by (rule updateStorage_snapshot)
  have a: "[ascii ''tasks'' \<mapsto> snapshotA] (ascii ''tasks'') = Some (JSON_stringify [taskA])"
    by (simp add: JSON_stringify_taskA)
  note startup_stringify [of "localStorage (updateStorage s)" "task_values s" form input list, OF u]
    startup_stringify [of "[ascii ''tasks'' \<mapsto> snapshotA]" "[taskA]" form input list, OF a]
    loadTasks_stringify [of "localStorage (updateStorage s)" "task_values s", OF u]
    loadTasks_stringify [of "[ascii ''tasks'' \<mapsto> snapshotA]" "[taskA]", OF a]
    JSON_parse_stringify [of ts] Task_array_Tasks_json [of ts]
  then show ?thesis by blast
qed

theorem load_inverts_persist_witness:
  "startup True (Some []) True [ascii ''tasks'' \<mapsto> snapshotA] = Some (Inr pageA) \<and>
   task_values pageA = [taskA]"
proof -
  from load_inverts_persist [of "[]" empty_page True "Some []" True]
  have "loadTasks [ascii ''tasks'' \<mapsto> snapshotA] = Inr (Tasks_json [taskA])"
    by blast
  then have "startup True (Some []) True [ascii ''tasks'' \<mapsto> snapshotA] = Some (Inr pageA)"
    by (simp add: startup_def Task_array_Tasks_json pageA_def renderTask_def taskA_def)
  then show ?thesis
    by (simp add: task_values_def pageA_def)
qed

text \<open>
  C1. Start the page on any storage, let the user do anything, and then perform an
  add, a toggle or a delete: the operation goes through, and afterwards the string
  stored under the key is the serialisation of the task sequence in memory.
\<close>

theorem snapshot_follows_every_operation:
  assumes "startup form input list store = Some (Inr s0)"
    and "run evs s0 = Inr s"
    and "operation ev s"
  shows "\<exists>s'. fire ev s = Inr s' \<and>
    localStorage s' (ascii ''tasks'') = Some (JSON_stringify (task_values s'))"
proof -
  from assms(1) have "well_formed s0"
    by (rule well_formed_startup)
  from this assms(2) have "well_formed s"
    by (rule well_formed_run)
  from this assms(3) show ?thesis
    by (rule operation_persists)
qed

theorem snapshot_follows_every_operation_witness:
  "startup True (Some []) True [ascii ''tasks'' \<mapsto> snapshotA] = Some (Inr pageA) \<and>
   run [Type (ascii ''B''), Submit] pageA = Inr pageAB \<and>
   operation (Click 0) pageAB \<and>
   (\<exists>s'. fire (Click 0) pageAB = Inr s' \<and>
      localStorage s' (ascii ''tasks'') = Some (JSON_stringify (task_values s')))"
proof -
  have o: "operation (Click 0) pageAB"
    by (simp add: operation_def pageAB_def)
  from snapshot_follows_every_operation [OF startup_pageA run_pageAB o] startup_pageA
    run_pageAB o
  show ?thesis by simp
qed

text \<open>
  C3 (as amended). A submit with no input field or with an empty input adds
  nothing and writes nothing: the page is as before, with the alert shown once more. A
  submit with a non-empty input, whatever its characters, adds it as a description.
\<close>

theorem submit_without_description:
  "(taskForm s \<and> (formInput s = None \<or> formInput s = Some []) \<longrightarrow>
      fire Submit s =
        Inr (s\<lparr>effects := effects s @ [Alert (ascii ''Please enter a task description'')]\<rparr>)) \<and>
   (taskForm s \<and> formInput s = Some d \<and> d \<noteq> [] \<longrightarrow>
      (\<exists>s'. fire Submit s = Inr s' \<and>
         heap s' = heap s @ [\<lparr>description = d, isCompleted = False\<rparr>] \<and>
         tasks s' = tasks s @ [length (heap s)] \<and>
         effects s' = effects s @
           [ConsoleLog (task_values s'),
            SetItem (ascii ''tasks'') (JSON_stringify (task_values s'))]))"
proof -
  have "fire Submit s =
        Inr (s\<lparr>effects := effects s @ [Alert (ascii ''Please enter a task description'')]\<rparr>)"
    if "taskForm s" "formInput s = None \<or> formInput s = Some []"
    using that submit_handler_empty [of s] by (simp add: fire_def alert_def)
  moreover have "\<exists>s'. fire Submit s = Inr s' \<and>
         heap s' = heap s @ [\<lparr>description = d, isCompleted = False\<rparr>] \<and>
         tasks s' = tasks s @ [length (heap s)] \<and>
         effects s' = effects s @
           [ConsoleLog (task_values s'),
            SetItem (ascii ''tasks'') (JSON_stringify (task_values s'))]"
    if "taskForm s" "formInput s = Some d" "d \<noteq> []"
    using that submit_handler_add [of s d] by (auto simp: fire_def)
  ultimately show ?thesis by blast
qed

theorem submit_without_description_witness:
  "fire Submit empty_page =
     Inr (empty_page\<lparr>effects := [Alert (ascii ''Please enter a task description'')]\<rparr>) \<and>
   fire Submit (empty_page\<lparr>formInput := None\<rparr>) =
     Inr (empty_page\<lparr>formInput := None,
            effects := [Alert (ascii ''Please enter a task description'')]\<rparr>) \<and>
   (\<exists>s'. fire Submit blank_page = Inr s' \<and>
      heap s' = [\<lparr>description = [0x20], isCompleted = False\<rparr>] \<and> tasks s' = [0])"
proof -
  from submit_without_description [of empty_page "[]"]
  have 1: "fire Submit empty_page =
     Inr (empty_page\<lparr>effects := [Alert (ascii ''Please enter a task description'')]\<rparr>)"
    by (simp add: empty_page_def)
  from submit_without_description [of "empty_page\<lparr>formInput := None\<rparr>" "[]"]
  have 2: "fire Submit (empty_page\<lparr>formInput := None\<rparr>) =
     Inr (empty_page\<lparr>formInput := None,
            effects := [Alert (ascii ''Please enter a task description'')]\<rparr>)"
    by (simp add: empty_page_def)
  from submit_without_description [of blank_page "[0x20]"]
  have 3: "\<exists>s'. fire Submit blank_page = Inr s' \<and>
      heap s' = [\<lparr>description = [0x20], isCompleted = False\<rparr>] \<and> tasks s' = [0]"
    by (auto simp: blank_page_def empty_page_def)
  from 1 2 3 show ?thesis by simp
qed

text \<open>
  C3, as the claim states it, fails: the input of \<open>blank_page\<close> is one space
  (U+0020), and the submit adds it as a task, writes the storage and shows no alert.
\<close>

theorem whitespace_submit_counterexample:
  "formInput blank_page = Some [0x20] \<and> taskForm blank_page \<and>
   task_values blank_page = [] \<and> localStorage blank_page (ascii ''tasks'') = None \<and>
   effects blank_page = [] \<and>
   map_sum id task_values (fire Submit blank_page) =
     Inr [\<lparr>description = [0x20], isCompleted = False\<rparr>] \<and>
   map_sum id effects (fire Submit blank_page) =
     Inr [ConsoleLog [\<lparr>description = [0x20], isCompleted = False\<rparr>],
          SetItem (ascii ''tasks'')
            (JSON_stringify [\<lparr>description = [0x20], isCompleted = False\<rparr>])]"
  by (simp add: fire_def blank_page_def empty_page_def submit_handler_def Let_def addTask_def
      renderTask_def updateStorage_def set_value_def task_values_def)

text \<open>
  C6. A click on the checkbox of an item flips the flag of its task and stores the
  result. A second click on the same checkbox flips it back: the heap, the array, the
  task sequence and the list are those of the start, and the stored snapshot is the
  serialisation of the original sequence.
\<close>

theorem toggle_twice_restores:
  assumes "well_formed s" and "taskListElement s = Some ch" and "i < length ch"
  shows "\<exists>s1 s2. fire (Change i) s = Inr s1 \<and> fire (Change i) s1 = Inr s2 \<and>
    isCompleted (heap s1 ! task_ref (ch ! i)) = (\<not> isCompleted (heap s ! task_ref (ch ! i))) \<and>
    isCompleted (task_values s1 ! i) = (\<not> isCompleted (task_values s ! i)) \<and>
    localStorage s1 (ascii ''tasks'') = Some (JSON_stringify (task_values s1)) \<and>
    heap s2 = heap s \<and> tasks s2 = tasks s \<and> task_values s2 = task_values s \<and>
    taskListElement s2 = taskListElement s \<and>
    localStorage s2 (ascii ''tasks'') = Some (JSON_stringify (task_values s))"
proof -
  let ?t = "task_ref (ch ! i)"
  let ?ch1 = "ch[i := (ch ! i)\<lparr>checkbox_checked := \<not> checkbox_checked (ch ! i)\<rparr>]"
  let ?s1 = "change_handler ?t (s\<lparr>taskListElement := Some ?ch1\<rparr>)"
  let ?ch2 = "?ch1[i := (?ch1 ! i)\<lparr>checkbox_checked := \<not> checkbox_checked (?ch1 ! i)\<rparr>]"
  let ?s2 = "change_handler ?t (?s1\<lparr>taskListElement := Some ?ch2\<rparr>)"
  note w = well_formed_row [OF assms]
  have f1: "fire (Change i) s = Inr ?s1"
    by (rule fire_Change [OF assms(2,3)])
  have l1: "taskListElement ?s1 = Some ?ch1"
    by (simp add: change_handler_frame)
  have t1: "task_ref (?ch1 ! i) = ?t"
    using assms(3) by simp
  from fire_Change [OF l1, of i] assms(3) t1 have f2: "fire (Change i) ?s1 = Inr ?s2"
    by simp
  have h1: "heap ?s1 = (heap s)[?t := (heap s ! ?t)\<lparr>isCompleted := \<not> isCompleted (heap s ! ?t)\<rparr>]"
    by (simp add: change_handler_frame)
  have h2: "heap ?s2 = heap s"
    using w(3) by (simp add: change_handler_frame)
  have k2: "tasks ?s2 = tasks s" "tasks ?s1 = tasks s"
    by (simp_all add: change_handler_frame)
  have c2: "taskListElement ?s2 = Some ch"
    using assms(3) by (simp add: change_handler_frame)
  have v2: "task_values ?s2 = task_values s"
    by (simp only: task_values_def h2 k2)
  have a: "isCompleted (heap ?s1 ! ?t) = (\<not> isCompleted (heap s ! ?t))"
    using w(3) by (simp add: h1)
  have b: "isCompleted (task_values ?s1 ! i) = (\<not> isCompleted (task_values s ! i))"
    using w(1,2,3) by (simp add: task_values_def k2 h1)
  have p1: "localStorage ?s1 (ascii ''tasks'') = Some (JSON_stringify (task_values ?s1))"
    by (rule change_handler_frame(7))
  have "localStorage ?s2 (ascii ''tasks'') = Some (JSON_stringify (task_values ?s2))"
    by (rule change_handler_frame(7))
  then have p2: "localStorage ?s2 (ascii ''tasks'') = Some (JSON_stringify (task_values s))"
    by (simp only: v2)
  from f1 f2 a b p1 h2 k2(1) v2 c2 p2 assms(2) show ?thesis
    by (intro exI [of _ ?s1] exI [of _ ?s2]) simp
qed

theorem toggle_twice_restores_witness:
  "well_formed pageA \<and>
   (\<exists>s1 s2. fire (Change 0) pageA = Inr s1 \<and> fire (Change 0) s1 = Inr s2 \<and>
      heap s1 = [\<lparr>description = ascii ''A'', isCompleted = False\<rparr>] \<and>
      heap s2 = [\<lparr>description = ascii ''A'', isCompleted = True\<rparr>] \<and>
      taskListElement s2 = taskListElement pageA)"
proof -
  have w: "well_formed pageA"
    by (simp add: well_formed_def pageA_def)
  have l: "taskListElement pageA =
      Some [\<lparr>span_text = ascii ''A'', checkbox_checked = True, task_ref = 0\<rparr>]"
    by (simp add: pageA_def)
  have n: "0 < length [\<lparr>span_text = ascii ''A'', checkbox_checked = True, task_ref = 0\<rparr>]"
    by simp
  from toggle_twice_restores [OF w l n] obtain s1 s2 where
    r: "fire (Change 0) pageA = Inr s1" "fire (Change 0) s1 = Inr s2" "heap s2 = heap pageA"
      "taskListElement s2 = taskListElement pageA"
    by blast
  from r(1) have "heap s1 = [\<lparr>description = ascii ''A'', isCompleted = False\<rparr>]"
    by (auto simp: fire_def pageA_def taskA_def change_handler_frame)
  with r w show ?thesis
    by (auto simp: pageA_def taskA_def)
qed

text \<open>
  C9. A click on the checkbox of the \<open>i\<close>-th item changes one field of one object:
  the array keeps its references, so the sequence keeps its length and order; every
  other object of the heap, and so every other task of the sequence, is as before; and
  the toggled task keeps its description. The form and the input are not touched.
\<close>

theorem toggle_changes_one_flag:
  assumes "well_formed s" and "taskListElement s = Some ch" and "i < length ch"
  shows "\<exists>s'. fire (Change i) s = Inr s' \<and>
    tasks s' = tasks s \<and> length (heap s') = length (heap s) \<and>
    (\<forall>a. a \<noteq> task_ref (ch ! i) \<longrightarrow> heap s' ! a = heap s ! a) \<and>
    description (heap s' ! task_ref (ch ! i)) = description (heap s ! task_ref (ch ! i)) \<and>
    length (task_values s') = length (task_values s) \<and>
    (\<forall>k < length (task_values s). k \<noteq> i \<longrightarrow> task_values s' ! k = task_values s ! k) \<and>
    description (task_values s' ! i) = description (task_values s ! i) \<and>
    isCompleted (task_values s' ! i) = (\<not> isCompleted (task_values s ! i)) \<and>
    taskForm s' = taskForm s \<and> formInput s' = formInput s"
proof -
  let ?t = "task_ref (ch ! i)"
  let ?ch1 = "ch[i := (ch ! i)\<lparr>checkbox_checked := \<not> checkbox_checked (ch ! i)\<rparr>]"
  let ?s1 = "change_handler ?t (s\<lparr>taskListElement := Some ?ch1\<rparr>)"
  note w = well_formed_row [OF assms]
  have f1: "fire (Change i) s = Inr ?s1"
    by (rule fire_Change [OF assms(2,3)])
  have h1: "heap ?s1 = (heap s)[?t := (heap s ! ?t)\<lparr>isCompleted := \<not> isCompleted (heap s ! ?t)\<rparr>]"
    by (simp add: change_handler_frame)
  have k1: "tasks ?s1 = tasks s" "taskForm ?s1 = taskForm s" "formInput ?s1 = formInput s"
    by (simp_all add: change_handler_frame)
  from assms(1) have d: "distinct (tasks s)"
    by (simp add: well_formed_def)
  have o: "task_values ?s1 ! k = task_values s ! k" if "k < length (task_values s)" "k \<noteq> i" for k
  proof -
    from that(1) have kl: "k < length (tasks s)"
      by (simp add: task_values_def)
    with d w(1,2) that(2) have "tasks s ! k \<noteq> ?t"
      by (metis nth_eq_iff_index_eq)
    with kl show ?thesis
      by (simp add: task_values_def k1 h1)
  qed
  have a: "\<forall>a. a \<noteq> ?t \<longrightarrow> heap ?s1 ! a = heap s ! a"
    by (simp add: h1)
  have b: "description (heap ?s1 ! ?t) = description (heap s ! ?t)"
    using w(3) by (simp add: h1)
  have c: "description (task_values ?s1 ! i) = description (task_values s ! i)"
    "isCompleted (task_values ?s1 ! i) = (\<not> isCompleted (task_values s ! i))"
    using w by (simp_all add: task_values_def k1 h1)
  have l: "length (heap ?s1) = length (heap s)" "length (task_values ?s1) = length (task_values s)"
    by (simp_all add: h1 task_values_def k1)
  from f1 k1 l a b o c show ?thesis
    by (intro exI [of _ ?s1]) simp
qed

theorem toggle_changes_one_flag_witness:
  "well_formed twins_page \<and>
   (\<exists>s'. fire (Change 2) twins_page = Inr s' \<and> tasks s' = [0, 1, 2] \<and>
      task_values s' =
        [\<lparr>description = ascii ''A'', isCompleted = False\<rparr>,
         \<lparr>description = ascii ''B'', isCompleted = False\<rparr>,
         \<lparr>description = ascii ''A'', isCompleted = True\<rparr>])"
proof -
  have w: "well_formed twins_page"
    by (simp add: well_formed_def twins_page_def)
  have l: "taskListElement twins_page =
      Some [\<lparr>span_text = ascii ''A'', checkbox_checked = False, task_ref = 0\<rparr>,
            \<lparr>span_text = ascii ''B'', checkbox_checked = False, task_ref = 1\<rparr>,
            \<lparr>span_text = ascii ''A'', checkbox_checked = False, task_ref = 2\<rparr>]"
    by (simp add: twins_page_def)
  have n: "2 < length [\<lparr>span_text = ascii ''A'', checkbox_checked = False, task_ref = 0\<rparr>,
            \<lparr>span_text = ascii ''B'', checkbox_checked = False, task_ref = 1\<rparr>,
            \<lparr>span_text = ascii ''A'', checkbox_checked = False, task_ref = 2\<rparr>]"
    by simp
  from toggle_changes_one_flag [OF w l n] obtain s' where
    r: "fire (Change 2) twins_page = Inr s'" "tasks s' = tasks twins_page"
    by blast
  from r(1) have "task_values s' =
        [\<lparr>description = ascii ''A'', isCompleted = False\<rparr>,
         \<lparr>description = ascii ''B'', isCompleted = False\<rparr>,
         \<lparr>description = ascii ''A'', isCompleted = True\<rparr>]"
    by (auto simp: fire_def twins_page_def task_values_def change_handler_frame)
  with r w show ?thesis
    by (auto simp: twins_page_def)
qed

text \<open>
  C8. No event, no listener and no call of \<open>deleteTask\<close> fails, whatever elements
  are missing: the two member accesses that would throw on null are never reached with
  null. Without the form a submit does nothing. Without the input, typing does nothing
  and the submit listener finds no description. Without the list, \<open>renderTask\<close>
  attaches nothing, there is no checkbox and no delete button to click, and
  \<open>deleteTask\<close> renders nothing.
\<close>

theorem missing_elements_are_skipped:
  "(\<exists>s'. fire ev s = Inr s') \<and> (\<exists>s'. submit_handler s = Inr s') \<and>
   (\<exists>s'. deleteTask t s = Inr s' \<and> (taskListElement s = None \<longrightarrow> taskListElement s' = None)) \<and>
   (\<not> taskForm s \<longrightarrow> fire Submit s = Inr s) \<and>
   (formInput s = None \<longrightarrow>
      fire (Type v) s = Inr s \<and>
      submit_handler s = Inr (alert (ascii ''Please enter a task description'') s)) \<and>
   (taskListElement s = None \<longrightarrow>
      renderTask t s = s \<and> fire (Change i) s = Inr s \<and> fire (Click i) s = Inr s)"
proof -
  have 1: "\<exists>s'. fire ev s = Inr s'"
    by (rule fire_total)
  have "\<exists>s'. fire Submit (s\<lparr>taskForm := True\<rparr>) = Inr s'"
    by (rule fire_total)
  then have 2: "\<exists>s'. submit_handler s = Inr s'"
    by (simp add: fire_def submit_handler_def Let_def addTask_def renderTask_def
        updateStorage_def set_value_def alert_def task_values_def split: option.splits if_splits)
  have 3: "\<exists>s'. deleteTask t s = Inr s' \<and> (taskListElement s = None \<longrightarrow> taskListElement s' = None)"
  proof (cases "heap s ! t \<in> set (task_values s)")
    case True
    from deleteTask_match [OF True] show ?thesis
      by (auto split: option.splits)
  next
    case False
    from deleteTask_no_match [OF False] show ?thesis
      by simp
  qed
  have 5: "\<not> taskForm s \<longrightarrow> fire Submit s = Inr s"
    by (simp add: fire_def)
  have 6: "formInput s = None \<longrightarrow>
      fire (Type v) s = Inr s \<and>
      submit_handler s = Inr (alert (ascii ''Please enter a task description'') s)"
    by (simp add: fire_def submit_handler_def)
  have 7: "taskListElement s = None \<longrightarrow>
      renderTask t s = s \<and> fire (Change i) s = Inr s \<and> fire (Click i) s = Inr s"
    by (simp add: fire_def renderTask_def)
  from 1 2 3 5 6 7 show ?thesis
    by blast
qed

theorem missing_elements_are_skipped_witness:
  "fire Submit bare_page = Inr bare_page \<and>
   fire (Type (ascii ''A'')) bare_page = Inr bare_page \<and>
   submit_handler bare_page =
     Inr (alert (ascii ''Please enter a task description'') bare_page) \<and>
   renderTask 0 bare_page = bare_page \<and>
   fire (Change 0) bare_page = Inr bare_page \<and>
   fire (Click 0) bare_page = Inr bare_page \<and>
   (\<exists>s'. deleteTask 0 bare_page = Inr s' \<and> taskListElement s' = None)"
proof -
  have b: "\<not> taskForm bare_page" "formInput bare_page = None" "taskListElement bare_page = None"
    by (simp_all add: bare_page_def)
  from missing_elements_are_skipped [of Submit bare_page 0 "ascii ''A''" 0] b
  show ?thesis
    by simp
qed

end
